theory Spec2Isabelle
  imports Main "HOL-Library.Word"
begin

unbundle bit_operations_syntax

section \<open>Data model\<close>

text \<open>
  A hash is a Go byte slice. The nil slice and the empty slice are not told apart by
  \<^verbatim>\<open>bytes.Compare\<close> nor by \<^verbatim>\<open>hash.Write\<close>, so both are the empty list.
\<close>

type_synonym bytes = "8 word list"

text \<open>
  The run-time panics the code can raise: a nil pointer dereference, an index out of
  range, and \<^verbatim>\<open>make\<close> with a negative size.
\<close>

datatype error = NilPointerDereference | IndexOutOfRange | MakeSliceOutOfRange

text \<open>
  \<^verbatim>\<open>DynTreeNode\<close> (dyntree.go). A \<^verbatim>\<open>*DynTreeNode\<close> is a \<open>nat option\<close>: \<open>None\<close> is
  nil, \<open>Some i\<close> is the node created as the \<open>i\<close>-th one. Every node is created by an
  \<^verbatim>\<open>append\<close> to \<^verbatim>\<open>t.nodes\<close> followed by taking the address of the last element, and is
  reached ever after through that address only (when \<^verbatim>\<open>append\<close> moves the slice, the
  copies are never read), so the node list below holds, at position \<open>i\<close>, the node
  behind the \<open>i\<close>-th address taken.
\<close>

record DynTreeNode =
  hash :: bytes
  left :: "nat option"
  right :: "nat option"
  parent :: "nat option"
  height :: int

text \<open>
  \<^verbatim>\<open>DynTree\<close>. The field \<^verbatim>\<open>height\<close> is \<open>tree_height\<close> here (the node's field keeps the
  name). The mutex has no sequential content, and the \<^verbatim>\<open>hash.Hash\<close> context is reset
  before each use: the digest function is the parameter \<open>sha\<close> of the operations
  (\<^verbatim>\<open>crypto/sha256\<close> in the code), applied to all the bytes written.
\<close>

record DynTree =
  nodes :: "DynTreeNode list"
  root :: "nat option"
  leaves :: "nat list"
  tree_height :: int
  paused :: bool

text \<open>\<^verbatim>\<open>types.MerkleNodeHashes\<close> and \<^verbatim>\<open>types.Path\<close> (package types).\<close>

record MerkleNodeHashes =
  Left :: bytes
  Right :: bytes
  Parent :: bytes

type_synonym Path = "MerkleNodeHashes list"

section \<open>Path validation (package types)\<close>

text \<open>\<^verbatim>\<open>hex.EncodeToString\<close>: two lower-case digits per byte.\<close>

definition hextable :: string where
  "hextable = ''0123456789abcdef''"

fun EncodeToString :: "bytes \<Rightarrow> string" where
  "EncodeToString [] = []"
| "EncodeToString (b # bs) =
     hextable ! unat (drop_bit 4 b) # hextable ! unat (b AND 15) # EncodeToString bs"

text \<open>The verb \<^verbatim>\<open>%q\<close> of \<^verbatim>\<open>fmt.Errorf\<close> on a string of hex digits: the string in double quotes.\<close>

definition quoted :: "string \<Rightarrow> string" where
  "quoted s = CHR 0x22 # s @ [CHR 0x22]"

text \<open>
  An \<^verbatim>\<open>error\<close> returned by validation is its message; \<open>None\<close> is the nil error.
  \<^verbatim>\<open>hash.Write\<close> of SHA-256 never returns an error, so those two returns have no branch.
\<close>

definition unexpected_parent :: "bytes \<Rightarrow> bytes \<Rightarrow> string" where
  "unexpected_parent got want =
     ''unexpected parent hash got '' @ quoted (EncodeToString got) @
     '' want '' @ quoted (EncodeToString want)"

definition parent_not_found :: "bytes \<Rightarrow> bytes \<Rightarrow> bytes \<Rightarrow> string" where
  "parent_not_found e a1 a2 =
     ''could not find parent hash '' @ quoted (EncodeToString e) @
     '', got '' @ quoted (EncodeToString a1) @ '' and '' @ quoted (EncodeToString a2)"

definition MerkleNodeHashes_Validate :: "(bytes \<Rightarrow> bytes) \<Rightarrow> MerkleNodeHashes \<Rightarrow> string option" where
  "MerkleNodeHashes_Validate sha h =
     (let expected = sha (Left h @ Right h)
      in if Parent h \<noteq> expected then Some (unexpected_parent (Parent h) expected) else None)"

fun Path_Validate :: "(bytes \<Rightarrow> bytes) \<Rightarrow> Path \<Rightarrow> string option" where
  "Path_Validate sha [] = None"
| "Path_Validate sha (h # p) =
     (case MerkleNodeHashes_Validate sha h of
        Some err \<Rightarrow> Some err
      | None \<Rightarrow>
          (case p of
             [] \<Rightarrow> Path_Validate sha p
           | up # _ \<Rightarrow>
               if Parent h \<noteq> Left up \<and> Parent h \<noteq> Right up
               then Some (parent_not_found (Parent h) (Left up) (Right up))
               else Path_Validate sha p))"

section \<open>The dynamic tree (dyntree.go)\<close>

text \<open>
  Reading through a pointer. An index past the end of the node list stands for no Go
  pointer; reading through it is reported like reading through nil.
\<close>

definition deref :: "DynTreeNode list \<Rightarrow> nat option \<Rightarrow> DynTreeNode option" where
  "deref ns p = (case p of None \<Rightarrow> None | Some i \<Rightarrow> if i < length ns then Some (ns ! i) else None)"

text \<open>
  \<^verbatim>\<open>rehash\<close>: the receiver's hash becomes the digest of \<open>a\<close> followed by \<open>b\<close>; with
  \<open>rehashParent\<close> the parent is rehashed in turn, from the receiver's sibling and the
  receiver. The recursion follows parent pointers and need not end on a cyclic chain:
  \<open>None\<close> is a call that does not return. A returned pair is the node list at the end
  and the panic, if any.
\<close>

partial_function (option) rehash ::
  "(bytes \<Rightarrow> bytes) \<Rightarrow> DynTreeNode list \<Rightarrow> nat option \<Rightarrow> bytes \<Rightarrow> bytes \<Rightarrow> bool
     \<Rightarrow> (DynTreeNode list \<times> error option) option" where
  "rehash sha ns n a b rehashParent =
     (case n of
        None \<Rightarrow> Some (ns, Some NilPointerDereference)
      | Some i \<Rightarrow>
          if length ns \<le> i then Some (ns, Some NilPointerDereference)
          else
            let ns' = ns[i := (ns ! i)\<lparr>hash := sha (a @ b)\<rparr>]; nd = ns' ! i
            in if rehashParent \<and> parent nd \<noteq> None then
                 (if left nd \<noteq> None then
                    (case deref ns' (left nd) of
                       None \<Rightarrow> Some (ns', Some NilPointerDereference)
                     | Some l \<Rightarrow> rehash sha ns' (parent nd) (hash l) (hash nd) True)
                  else
                    (case deref ns' (right nd) of
                       None \<Rightarrow> Some (ns', Some NilPointerDereference)
                     | Some r \<Rightarrow> rehash sha ns' (parent nd) (hash nd) (hash r) True))
               else Some (ns', None))"

declare rehash.simps [code]

text \<open>
  Go's \<^verbatim>\<open>int\<close>, taken as 64 bits wide: the value of an arithmetic expression is the
  mathematical one wrapped into \<open>[-2\<^sup>6\<^sup>3, 2\<^sup>6\<^sup>3)\<close>.
\<close>

definition wrap_int :: "int \<Rightarrow> int" where
  "wrap_int x = (x + 2 ^ 63) mod 2 ^ 64 - 2 ^ 63"

text \<open>
  \<^verbatim>\<open>NewDynTree\<close>: \<^verbatim>\<open>make\<close> panics on a negative capacity; the capacity of the node slice
  is \<^verbatim>\<open>initialCap*2-1\<close> in wrapping arithmetic.
\<close>

definition NewDynTree :: "int \<Rightarrow> error + DynTree" where
  "NewDynTree initialCap =
     (if wrap_int (wrap_int (initialCap * 2) - 1) < 0 \<or> initialCap < 0 then Inl MakeSliceOutOfRange
      else Inr \<lparr>nodes = [], root = None, leaves = [], tree_height = 0, paused = False\<rparr>)"

definition LeavesLen :: "DynTree \<Rightarrow> int" where
  "LeavesLen t = int (length (leaves t))"

definition Root :: "DynTree \<Rightarrow> error + bytes" where
  "Root t = (case deref (nodes t) (root t) of None \<Rightarrow> Inl NilPointerDereference | Some r \<Rightarrow> Inr (hash r))"

definition Leaf :: "DynTree \<Rightarrow> int \<Rightarrow> error + bytes" where
  "Leaf t index =
     (if index < 0 \<or> int (length (leaves t)) \<le> index then Inl IndexOutOfRange
      else case deref (nodes t) (Some (leaves t ! nat index)) of
             None \<Rightarrow> Inl NilPointerDereference
           | Some n \<Rightarrow> Inr (hash n))"

text \<open>
  The triplet \<^verbatim>\<open>Path\<close> stores for a node that has a parent: the operands are read
  before the store, so a nil sibling panics before the index is checked.
\<close>

definition Path_triplet :: "DynTreeNode list \<Rightarrow> DynTreeNode \<Rightarrow> error + MerkleNodeHashes" where
  "Path_triplet ns n =
     (if left n \<noteq> None then
        (case deref ns (left n) of
           None \<Rightarrow> Inl NilPointerDereference
         | Some l \<Rightarrow>
             (case deref ns (parent n) of
                None \<Rightarrow> Inl NilPointerDereference
              | Some p \<Rightarrow> Inr \<lparr>Left = hash l, Right = hash n, Parent = hash p\<rparr>))
      else
        (case deref ns (right n) of
           None \<Rightarrow> Inl NilPointerDereference
         | Some r \<Rightarrow>
             (case deref ns (parent n) of
                None \<Rightarrow> Inl NilPointerDereference
              | Some p \<Rightarrow> Inr \<lparr>Left = hash n, Right = hash r, Parent = hash p\<rparr>)))"

text \<open>
  The loop of \<^verbatim>\<open>Path\<close>. \<open>path\<close> is the part of the buffer written so far, of length
  \<open>level\<close>; the buffer has \<open>tree_height t\<close> slots, and a store past it panics, which
  bounds the loop.
\<close>

function Path_loop :: "DynTree \<Rightarrow> nat \<Rightarrow> int \<Rightarrow> Path \<Rightarrow> error + Path" where
  "Path_loop t node level path =
     (case deref (nodes t) (Some node) of
        None \<Rightarrow> Inl NilPointerDereference
      | Some n \<Rightarrow>
          (case parent n of
             None \<Rightarrow> Inr path
           | Some p \<Rightarrow>
               (case Path_triplet (nodes t) n of
                  Inl e \<Rightarrow> Inl e
                | Inr h \<Rightarrow>
                    if level < 0 \<or> tree_height t \<le> level then Inl IndexOutOfRange
                    else Path_loop t p (level + 1) (path @ [h]))))"
  by pat_completeness auto
termination
  by (relation "measure (\<lambda>(t, node, level, path). nat (tree_height t - level))") auto

definition Path :: "DynTree \<Rightarrow> int \<Rightarrow> error + Path" where
  "Path t index =
     (if length (leaves t) < 2 then Inr []
      else if tree_height t < 0 then Inl MakeSliceOutOfRange
      else if index < 0 \<or> int (length (leaves t)) \<le> index then Inl IndexOutOfRange
      else Path_loop t (leaves t ! nat index) 0 [])"

text \<open>
  The loop of \<^verbatim>\<open>Add\<close> that climbs from the previous last leaf while the parent is one
  level higher. \<open>None\<close> is a loop that does not end.
\<close>

partial_function (option) Add_climb :: "DynTreeNode list \<Rightarrow> nat \<Rightarrow> (error + nat) option" where
  "Add_climb ns lft =
     (case deref ns (Some lft) of
        None \<Rightarrow> Some (Inl NilPointerDereference)
      | Some l \<Rightarrow>
          (case parent l of
             None \<Rightarrow> Some (Inr lft)
           | Some p \<Rightarrow>
               (case deref ns (Some p) of
                  None \<Rightarrow> Some (Inl NilPointerDereference)
                | Some pn \<Rightarrow> if height pn = height l + 1 then Add_climb ns p else Some (Inr lft))))"

declare Add_climb.simps [code]

text \<open>
  \<^verbatim>\<open>Add\<close>, statement by statement. A result \<open>Some (t', e)\<close> is the tree at the end of the
  call and the panic that ended it, if any.
\<close>

definition Add_link :: "DynTreeNode list \<Rightarrow> nat \<Rightarrow> nat \<Rightarrow> DynTreeNode list \<times> error option" where
  "Add_link ns1 node lft =
     (let l = ns1 ! lft;
          par = length ns1;
          ns2 = ns1 @ [\<lparr>hash = [], left = left l, right = None, parent = parent l, height = height l + 1\<rparr>];
          ns3 = ns2[node := (ns2 ! node)\<lparr>left := Some lft, parent := Some par\<rparr>];
          ns4 = ns3[lft := (ns3 ! lft)\<lparr>right := Some node, parent := Some par\<rparr>]
      in case left (ns4 ! lft) of
           None \<Rightarrow> (ns4, None)
         | Some x \<Rightarrow>
             if length ns4 \<le> x then (ns4, Some NilPointerDereference)
             else
               let ns5 = ns4[x := (ns4 ! x)\<lparr>right := Some par\<rparr>]
               in (ns5[lft := (ns5 ! lft)\<lparr>left := None\<rparr>], None))"

definition Add :: "(bytes \<Rightarrow> bytes) \<Rightarrow> DynTree \<Rightarrow> bytes \<Rightarrow> (DynTree \<times> error option) option" where
  "Add sha t leaf =
     (let node = length (nodes t);
          t1 = t\<lparr>nodes := nodes t @ [\<lparr>hash = leaf, left = None, right = None, parent = None, height = 0\<rparr>],
                 leaves := leaves t @ [node]\<rparr>
      in if root t1 = None then Some (t1\<lparr>root := Some node\<rparr>, None)
         else if length (leaves t1) < 2 then Some (t1, Some IndexOutOfRange)
         else
           (case Add_climb (nodes t1) (leaves t1 ! (length (leaves t1) - 2)) of
              None \<Rightarrow> None
            | Some (Inl e) \<Rightarrow> Some (t1, Some e)
            | Some (Inr lft) \<Rightarrow>
                (case Add_link (nodes t1) node lft of
                   (ns, Some e) \<Rightarrow> Some (t1\<lparr>nodes := ns\<rparr>, Some e)
                 | (ns, None) \<Rightarrow>
                     let par = length (nodes t1);
                         t2 = t1\<lparr>nodes := ns\<rparr>;
                         t3 = (if parent (ns ! par) = None then t2\<lparr>root := Some par\<rparr> else t2);
                         t4 = (if tree_height t3 < height (ns ! par)
                               then t3\<lparr>tree_height := height (ns ! par)\<rparr> else t3)
                     in if \<not> paused t4 then
                          (case rehash sha ns (Some par) (hash (ns ! lft)) leaf True of
                             None \<Rightarrow> None
                           | Some (ns', e) \<Rightarrow> Some (t4\<lparr>nodes := ns'\<rparr>, e))
                        else Some (t4, None))))"

text \<open>\<^verbatim>\<open>Update\<close>.\<close>

definition Update :: "(bytes \<Rightarrow> bytes) \<Rightarrow> DynTree \<Rightarrow> int \<Rightarrow> bytes \<Rightarrow> (DynTree \<times> error option) option" where
  "Update sha t index hsh =
     (if index < 0 \<or> int (length (leaves t)) \<le> index then Some (t, Some IndexOutOfRange)
      else
        let node = leaves t ! nat index
        in if length (nodes t) \<le> node then Some (t, Some NilPointerDereference)
           else
             let ns = (nodes t)[node := (nodes t ! node)\<lparr>hash := hsh\<rparr>];
                 t1 = t\<lparr>nodes := ns\<rparr>;
                 n = ns ! node
             in if \<not> paused t then
                  (if left n \<noteq> None then
                     (case deref ns (left n) of
                        None \<Rightarrow> Some (t1, Some NilPointerDereference)
                      | Some l \<Rightarrow>
                          (case rehash sha ns (parent n) (hash l) hsh True of
                             None \<Rightarrow> None
                           | Some (ns', e) \<Rightarrow> Some (t1\<lparr>nodes := ns'\<rparr>, e)))
                   else if right n \<noteq> None then
                     (case deref ns (right n) of
                        None \<Rightarrow> Some (t1, Some NilPointerDereference)
                      | Some r \<Rightarrow>
                          (case rehash sha ns (parent n) hsh (hash r) True of
                             None \<Rightarrow> None
                           | Some (ns', e) \<Rightarrow> Some (t1\<lparr>nodes := ns'\<rparr>, e)))
                   else Some (t1, None))
                else Some (t1, None))"

text \<open>\<^verbatim>\<open>Pause\<close>, and \<^verbatim>\<open>Resume\<close> with \<^verbatim>\<open>recompute\<close>.\<close>

definition Pause :: "DynTree \<Rightarrow> DynTree" where
  "Pause t = t\<lparr>paused := True\<rparr>"

text \<open>One step of the inner loop of \<^verbatim>\<open>recompute\<close>, on the node \<^verbatim>\<open>rows[i]\<close>.\<close>

definition recompute_node ::
  "(bytes \<Rightarrow> bytes) \<Rightarrow> DynTreeNode list \<Rightarrow> int \<Rightarrow> nat \<Rightarrow> nat list
     \<Rightarrow> (DynTreeNode list \<times> nat list \<times> error option) option" where
  "recompute_node sha ns h node top_row =
     (case deref ns (Some node) of
        None \<Rightarrow> Some (ns, top_row, Some NilPointerDereference)
      | Some n \<Rightarrow>
          (case parent n of
             None \<Rightarrow> Some (ns, top_row, None)
           | Some p \<Rightarrow>
               (case deref ns (Some p) of
                  None \<Rightarrow> Some (ns, top_row, Some NilPointerDereference)
                | Some pn \<Rightarrow>
                    if height pn = h + 1 then
                      (case deref ns (right n) of
                         None \<Rightarrow> Some (ns, top_row, Some NilPointerDereference)
                       | Some r \<Rightarrow>
                           (case rehash sha ns (Some p) (hash n) (hash r) False of
                              None \<Rightarrow> None
                            | Some (ns', Some e) \<Rightarrow> Some (ns', top_row, Some e)
                            | Some (ns', None) \<Rightarrow> Some (ns', top_row @ [p], None)))
                    else Some (ns, top_row, None))))"

text \<open>The inner loop: \<open>i\<close> advances by two, so every second element of the row is skipped.\<close>

fun recompute_row ::
  "(bytes \<Rightarrow> bytes) \<Rightarrow> DynTreeNode list \<Rightarrow> int \<Rightarrow> nat list \<Rightarrow> nat list
     \<Rightarrow> (DynTreeNode list \<times> nat list \<times> error option) option" where
  "recompute_row sha ns h [] top_row = Some (ns, top_row, None)"
| "recompute_row sha ns h [node] top_row = recompute_node sha ns h node top_row"
| "recompute_row sha ns h (node # skipped # rest) top_row =
     (case recompute_node sha ns h node top_row of
        None \<Rightarrow> None
      | Some (ns', top_row', Some e) \<Rightarrow> Some (ns', top_row', Some e)
      | Some (ns', top_row', None) \<Rightarrow> recompute_row sha ns' h rest top_row')"

text \<open>The outer loop, left by \<^verbatim>\<open>break\<close> on an empty row; \<open>None\<close> is a loop that does not end.\<close>

partial_function (option) recompute_loop ::
  "(bytes \<Rightarrow> bytes) \<Rightarrow> DynTreeNode list \<Rightarrow> nat list \<Rightarrow> (DynTreeNode list \<times> error option) option" where
  "recompute_loop sha ns rows =
     (if length rows < 1 then Some (ns, None)
      else
        (case deref ns (Some (rows ! 0)) of
           None \<Rightarrow> Some (ns, Some NilPointerDereference)
         | Some r0 \<Rightarrow>
             (case recompute_row sha ns (height r0) rows [] of
                None \<Rightarrow> None
              | Some (ns', top_row, Some e) \<Rightarrow> Some (ns', Some e)
              | Some (ns', top_row, None) \<Rightarrow> recompute_loop sha ns' top_row)))"

declare recompute_loop.simps [code]

definition recompute :: "(bytes \<Rightarrow> bytes) \<Rightarrow> DynTree \<Rightarrow> (DynTree \<times> error option) option" where
  "recompute sha t =
     (case recompute_loop sha (nodes t) (leaves t) of
        None \<Rightarrow> None
      | Some (ns', e) \<Rightarrow> Some (t\<lparr>nodes := ns'\<rparr>, e))"

definition Resume :: "(bytes \<Rightarrow> bytes) \<Rightarrow> DynTree \<Rightarrow> (DynTree \<times> error option) option" where
  "Resume sha t =
     (case recompute sha t of
        None \<Rightarrow> None
      | Some (t', Some e) \<Rightarrow> Some (t', Some e)
      | Some (t', None) \<Rightarrow> Some (t'\<lparr>paused := False\<rparr>, None))"

definition par_rel :: "DynTreeNode list \<Rightarrow> (nat \<times> nat) set" where
  "par_rel ns = {(i, p). i < length ns \<and> parent (ns ! i) = Some p}"

definition ptrs_ok :: "DynTreeNode list \<Rightarrow> bool" where
  "ptrs_ok ns \<longleftrightarrow>
     (\<forall>i<length ns.
        (\<forall>j. left (ns ! i) = Some j \<longrightarrow> j < length ns) \<and>
        (\<forall>j. right (ns ! i) = Some j \<longrightarrow> j < length ns) \<and>
        (\<forall>j. parent (ns ! i) = Some j \<longrightarrow> j < length ns))"

definition sib_ok :: "DynTreeNode list \<Rightarrow> bool" where
  "sib_ok ns \<longleftrightarrow>
     (\<forall>i<length ns.
        (\<forall>l. left (ns ! i) = Some l \<longrightarrow> right (ns ! l) = Some i \<and> parent (ns ! l) = parent (ns ! i)) \<and>
        (\<forall>r. right (ns ! i) = Some r \<longrightarrow> left (ns ! r) = Some i \<and> parent (ns ! r) = parent (ns ! i)) \<and>
        (left (ns ! i) = None \<or> right (ns ! i) = None) \<and>
        (parent (ns ! i) = None \<longleftrightarrow> left (ns ! i) = None \<and> right (ns ! i) = None))"

definition kids_ok :: "DynTreeNode list \<Rightarrow> bool" where
  "kids_ok ns \<longleftrightarrow>
     (\<forall>i<length ns. \<forall>j<length ns.
        parent (ns ! i) \<noteq> None \<and> parent (ns ! i) = parent (ns ! j) \<longrightarrow>
        i = j \<or> left (ns ! i) = Some j \<or> right (ns ! i) = Some j)"

definition heights_ok :: "DynTreeNode list \<Rightarrow> bool" where
  "heights_ok ns \<longleftrightarrow>
     (\<forall>i<length ns.
        0 \<le> height (ns ! i) \<and>
        (\<forall>p. parent (ns ! i) = Some p \<longrightarrow> height (ns ! i) < height (ns ! p)) \<and>
        (\<forall>p. parent (ns ! i) = Some p \<longrightarrow> right (ns ! i) \<noteq> None \<longrightarrow> height (ns ! p) = height (ns ! i) + 1) \<and>
        (\<forall>l. left (ns ! i) = Some l \<longrightarrow> height (ns ! i) \<le> height (ns ! l)))"

definition spine_ok :: "DynTreeNode list \<Rightarrow> nat list \<Rightarrow> bool" where
  "spine_ok ns ls \<longleftrightarrow>
     (ls \<noteq> [] \<longrightarrow> (\<forall>q. (last ls, q) \<in> (par_rel ns)\<^sup>* \<longrightarrow> right (ns ! q) = None))"

definition root_ok :: "DynTreeNode list \<Rightarrow> nat option \<Rightarrow> bool" where
  "root_ok ns rt \<longleftrightarrow>
     (case rt of
        None \<Rightarrow> ns = []
      | Some r \<Rightarrow> r < length ns \<and> (\<forall>i<length ns. parent (ns ! i) = None \<longleftrightarrow> i = r))"

definition leaves_ok :: "DynTreeNode list \<Rightarrow> nat list \<Rightarrow> bool" where
  "leaves_ok ns ls \<longleftrightarrow>
     (\<forall>l\<in>set ls. l < length ns \<and> height (ns ! l) = 0 \<and> (2 \<le> length ls \<longrightarrow> parent (ns ! l) \<noteq> None)) \<and>
     (ls = [] \<longleftrightarrow> ns = [])"

definition well_formed :: "DynTree \<Rightarrow> bool" where
  "well_formed t \<longleftrightarrow>
     ptrs_ok (nodes t) \<and> sib_ok (nodes t) \<and> kids_ok (nodes t) \<and> heights_ok (nodes t) \<and>
     (\<forall>i<length (nodes t). height (nodes t ! i) \<le> tree_height t) \<and> 0 \<le> tree_height t \<and>
     root_ok (nodes t) (root t) \<and> leaves_ok (nodes t) (leaves t) \<and> spine_ok (nodes t) (leaves t)"

definition climb_rel :: "DynTreeNode list \<Rightarrow> (nat \<times> nat) set" where
  "climb_rel ns = {(i, p). i < length ns \<and> parent (ns ! i) = Some p \<and> height (ns ! p) = height (ns ! i) + 1}"

definition leaf_node :: "bytes \<Rightarrow> DynTreeNode" where
  "leaf_node x = \<lparr>hash = x, left = None, right = None, parent = None, height = 0\<rparr>"

definition linked :: "DynTreeNode list \<Rightarrow> nat \<Rightarrow> bytes \<Rightarrow> DynTreeNode list" where
  "linked ns c lf =
     (case left (ns ! c) of
        None \<Rightarrow> ns[c := (ns ! c)\<lparr>right := Some (length ns), parent := Some (length ns + 1)\<rparr>]
      | Some x \<Rightarrow> (ns[x := (ns ! x)\<lparr>right := Some (length ns + 1)\<rparr>])
                    [c := (ns ! c)\<lparr>right := Some (length ns), parent := Some (length ns + 1), left := None\<rparr>])
     @ [\<lparr>hash = lf, left = Some c, right = None, parent = Some (length ns + 1), height = 0\<rparr>,
        \<lparr>hash = [], left = left (ns ! c), right = None, parent = parent (ns ! c), height = height (ns ! c) + 1\<rparr>]"

definition cand_ok :: "DynTreeNode list \<Rightarrow> nat \<Rightarrow> bool" where
  "cand_ok ns c \<longleftrightarrow> c < length ns \<and> right (ns ! c) = None \<and>
     (\<forall>p. parent (ns ! c) = Some p \<longrightarrow> height (ns ! p) \<noteq> height (ns ! c) + 1)"

definition same_shape :: "DynTreeNode list \<Rightarrow> DynTreeNode list \<Rightarrow> bool" where
  "same_shape ns ns' \<longleftrightarrow>
     length ns' = length ns \<and>
     (\<forall>i. left (ns' ! i) = left (ns ! i) \<and> right (ns' ! i) = right (ns ! i) \<and>
          parent (ns' ! i) = parent (ns ! i) \<and> height (ns' ! i) = height (ns ! i))"

definition hashes_ok_except :: "(bytes \<Rightarrow> bytes) \<Rightarrow> DynTreeNode list \<Rightarrow> nat set \<Rightarrow> bool" where
  "hashes_ok_except sha ns S \<longleftrightarrow>
     (\<forall>l<length ns. \<forall>p r. parent (ns ! l) = Some p \<and> right (ns ! l) = Some r \<and> p \<notin> S \<longrightarrow>
        hash (ns ! p) = sha (hash (ns ! l) @ hash (ns ! r)))"

definition Add_shape :: "DynTree \<Rightarrow> bytes \<Rightarrow> nat \<Rightarrow> DynTree" where
  "Add_shape t lf c =
     t\<lparr>nodes := linked (nodes t) c lf, leaves := leaves t @ [length (nodes t)],
       root := (if parent (nodes t ! c) = None then Some (Suc (length (nodes t))) else root t),
       tree_height := max (tree_height t) (height (nodes t ! c) + 1)\<rparr>"

fun nth_parent :: "DynTreeNode list \<Rightarrow> nat \<Rightarrow> nat \<Rightarrow> nat" where
  "nth_parent ns i 0 = i"
| "nth_parent ns i (Suc k) = (case parent (ns ! i) of None \<Rightarrow> i | Some p \<Rightarrow> nth_parent ns p k)"

definition oriented_triplet :: "DynTreeNode list \<Rightarrow> nat \<Rightarrow> MerkleNodeHashes" where
  "oriented_triplet ns i =
     (case left (ns ! i) of
        Some l \<Rightarrow> \<lparr>Left = hash (ns ! l), Right = hash (ns ! i), Parent = hash (ns ! the (parent (ns ! i)))\<rparr>
      | None \<Rightarrow> \<lparr>Left = hash (ns ! i), Right = hash (ns ! the (right (ns ! i))),
                  Parent = hash (ns ! the (parent (ns ! i)))\<rparr>)"

datatype operation = OpAdd bytes | OpUpdate int bytes | OpPause | OpResume

fun apply_op :: "(bytes \<Rightarrow> bytes) \<Rightarrow> DynTree \<Rightarrow> operation \<Rightarrow> (DynTree \<times> error option) option" where
  "apply_op sha t (OpAdd leaf) = Add sha t leaf"
| "apply_op sha t (OpUpdate index hsh) = Update sha t index hsh"
| "apply_op sha t OpPause = Some (Pause t, None)"
| "apply_op sha t OpResume = Resume sha t"

fun run :: "(bytes \<Rightarrow> bytes) \<Rightarrow> DynTree \<Rightarrow> operation list \<Rightarrow> DynTree option" where
  "run sha t [] = Some t"
| "run sha t (x # xs) = (case apply_op sha t x of None \<Rightarrow> None | Some (t', e) \<Rightarrow> run sha t' xs)"

fun Adds :: "(bytes \<Rightarrow> bytes) \<Rightarrow> DynTree \<Rightarrow> bytes list \<Rightarrow> (DynTree \<times> error option) option" where
  "Adds sha t [] = Some (t, None)"
| "Adds sha t (leaf # rest) =
     (case Add sha t leaf of
        None \<Rightarrow> None
      | Some (t', Some e) \<Rightarrow> Some (t', Some e)
      | Some (t', None) \<Rightarrow> Adds sha t' rest)"

text \<open>The nodes of height \<open>k\<close>, in the order of their creation: the row that \<^verbatim>\<open>recompute\<close> walks at level \<open>k\<close>.\<close>

definition lev :: "DynTreeNode list \<Rightarrow> int \<Rightarrow> nat list" where
  "lev ns k = filter (\<lambda>i. height (ns ! i) = k) [0..<length ns]"

text \<open>A right child whose parent is one level up: the node that the walk of a row skips.\<close>

definition rchild :: "DynTreeNode list \<Rightarrow> int \<Rightarrow> nat \<Rightarrow> bool" where
  "rchild ns k x \<longleftrightarrow> left (ns ! x) \<noteq> None \<and> (\<exists>p. parent (ns ! x) = Some p \<and> height (ns ! p) = k + 1)"

text \<open>A row read two by two, as the inner loop of \<^verbatim>\<open>recompute\<close> does: the first of each pair is no such right child, the second is one and has the first as its left sibling.\<close>

fun paired :: "DynTreeNode list \<Rightarrow> int \<Rightarrow> nat list \<Rightarrow> bool" where
  "paired ns k [] = True"
| "paired ns k [x] = (\<not> rchild ns k x)"
| "paired ns k (x # y # rest) =
     (\<not> rchild ns k x \<and> rchild ns k y \<and> left (ns ! y) = Some x \<and> paired ns k rest)"

text \<open>Every row is paired.\<close>

definition levels_ok :: "DynTreeNode list \<Rightarrow> bool" where
  "levels_ok ns \<longleftrightarrow> (\<forall>k. paired ns k (lev ns k))"

text \<open>Every node above the leaves is the parent of a left child.\<close>

definition inner_ok :: "DynTreeNode list \<Rightarrow> bool" where
  "inner_ok ns \<longleftrightarrow>
     (\<forall>p<length ns. height (ns ! p) \<noteq> 0 \<longrightarrow>
        (\<exists>l<length ns. parent (ns ! l) = Some p \<and> right (ns ! l) \<noteq> None))"

text \<open>Left children of one row have their parents in the same order.\<close>

definition mono_ok :: "DynTreeNode list \<Rightarrow> bool" where
  "mono_ok ns \<longleftrightarrow>
     (\<forall>l1<length ns. \<forall>l2<length ns. \<forall>p1 p2.
        l1 < l2 \<and> height (ns ! l1) = height (ns ! l2) \<and> right (ns ! l1) \<noteq> None \<and> right (ns ! l2) \<noteq> None \<and>
        parent (ns ! l1) = Some p1 \<and> parent (ns ! l2) = Some p2 \<longrightarrow> p1 < p2)"

text \<open>A node on the right spine is the last of its row; the rows strictly between it and the row below its parent are of even length, and the row below its parent ends with its left sibling.\<close>

definition spine_node_ok :: "DynTreeNode list \<Rightarrow> nat \<Rightarrow> bool" where
  "spine_node_ok ns s \<longleftrightarrow>
     lev ns (height (ns ! s)) \<noteq> [] \<and> last (lev ns (height (ns ! s))) = s \<and>
     (case parent (ns ! s) of
        None \<Rightarrow> (\<forall>k. height (ns ! s) < k \<longrightarrow> lev ns k = [])
      | Some pp \<Rightarrow>
          (\<forall>k. height (ns ! s) < k \<and> k < height (ns ! pp) - 1 \<longrightarrow> even (length (lev ns k))) \<and>
          (height (ns ! s) < height (ns ! pp) - 1 \<longrightarrow>
             (\<exists>x. left (ns ! s) = Some x \<and> lev ns (height (ns ! pp) - 1) \<noteq> [] \<and>
                  last (lev ns (height (ns ! pp) - 1)) = x)))"

text \<open>The condition above for the last leaf and all its ancestors.\<close>

definition spine_levels :: "DynTreeNode list \<Rightarrow> nat list \<Rightarrow> bool" where
  "spine_levels ns ls \<longleftrightarrow>
     (ls \<noteq> [] \<longrightarrow> (\<forall>s. (last ls, s) \<in> (par_rel ns)\<^sup>* \<longrightarrow> spine_node_ok ns s))"

text \<open>The invariant of the rows: the leaves are the row of height 0, and the four conditions above hold.\<close>

definition level_inv :: "DynTree \<Rightarrow> bool" where
  "level_inv t \<longleftrightarrow>
     leaves t = lev (nodes t) 0 \<and> levels_ok (nodes t) \<and> inner_ok (nodes t) \<and> mono_ok (nodes t) \<and>
     spine_levels (nodes t) (leaves t)"

text \<open>The facts about a tree and the candidate found by the climb of \<^verbatim>\<open>Add\<close> that the preservation of the rows needs.\<close>

definition add_ctx :: "DynTreeNode list \<Rightarrow> nat list \<Rightarrow> nat \<Rightarrow> bool" where
  "add_ctx ns ls c \<longleftrightarrow>
     ptrs_ok ns \<and> sib_ok ns \<and> kids_ok ns \<and> heights_ok ns \<and> spine_ok ns ls \<and> leaves_ok ns ls \<and>
     ls \<noteq> [] \<and> cand_ok ns c \<and> (last ls, c) \<in> (climb_rel ns)\<^sup>* \<and>
     ls = lev ns 0 \<and> levels_ok ns \<and> inner_ok ns \<and> mono_ok ns \<and> spine_levels ns ls"

text \<open>The parent that one step of the inner loop of \<^verbatim>\<open>recompute\<close> appends to \<^verbatim>\<open>top\<close>.\<close>

definition up_parent :: "DynTreeNode list \<Rightarrow> int \<Rightarrow> nat \<Rightarrow> nat list" where
  "up_parent ns k x =
     (case parent (ns ! x) of None \<Rightarrow> [] | Some p \<Rightarrow> if height (ns ! p) = k + 1 then [p] else [])"

text \<open>The node list after one step of the inner loop on a node that has a right sibling whenever its parent is one level up.\<close>

definition row_step :: "(bytes \<Rightarrow> bytes) \<Rightarrow> DynTreeNode list \<Rightarrow> int \<Rightarrow> nat \<Rightarrow> DynTreeNode list" where
  "row_step sha ns k x =
     (case parent (ns ! x) of
        None \<Rightarrow> ns
      | Some p \<Rightarrow>
          if height (ns ! p) = k + 1
          then ns[p := (ns ! p)\<lparr>hash := sha (hash (ns ! x) @ hash (ns ! the (right (ns ! x))))\<rparr>]
          else ns)"

text \<open>The row \<^verbatim>\<open>top\<close> collected by the inner loop.\<close>

fun tops :: "DynTreeNode list \<Rightarrow> int \<Rightarrow> nat list \<Rightarrow> nat list" where
  "tops ns k [] = []"
| "tops ns k [x] = up_parent ns k x"
| "tops ns k (x # y # rest) = up_parent ns k x @ tops ns k rest"

text \<open>Every parent of height at most \<open>k\<close> holds the digest of its two children.\<close>

definition hashed_upto :: "(bytes \<Rightarrow> bytes) \<Rightarrow> DynTreeNode list \<Rightarrow> int \<Rightarrow> bool" where
  "hashed_upto sha ns k \<longleftrightarrow>
     (\<forall>l<length ns. \<forall>p r. parent (ns ! l) = Some p \<and> right (ns ! l) = Some r \<and> height (ns ! p) \<le> k \<longrightarrow>
        hash (ns ! p) = sha (hash (ns ! l) @ hash (ns ! r)))"

text \<open>Two trees of the same shape whose nodes of height 0 hold the same hashes: the eager tree and the paused tree after the same calls of \<^verbatim>\<open>Add\<close>.\<close>

definition mirror :: "DynTree \<Rightarrow> DynTree \<Rightarrow> bool" where
  "mirror te tp \<longleftrightarrow>
     same_shape (nodes te) (nodes tp) \<and> leaves tp = leaves te \<and> root tp = root te \<and>
     tree_height tp = tree_height te \<and>
     (\<forall>q<length (nodes te). height (nodes te ! q) = 0 \<longrightarrow> hash (nodes tp ! q) = hash (nodes te ! q))"

text \<open>The invariant of all reachable states: well-formed, rows in order and, while hashing is active, every parent hashed from its children.\<close>

definition good :: "(bytes \<Rightarrow> bytes) \<Rightarrow> DynTree \<Rightarrow> bool" where
  "good sha t \<longleftrightarrow> well_formed t \<and> level_inv t \<and> (\<not> paused t \<longrightarrow> hashes_ok_except sha (nodes t) {})"

text \<open>A digest for evaluating examples: it returns the bytes written.\<close>

definition example_digest :: "bytes \<Rightarrow> bytes" where
  "example_digest bs = bs"

definition empty_tree :: DynTree where
  "empty_tree = \<lparr>nodes = [], root = None, leaves = [], tree_height = 0, paused = False\<rparr>"

definition three_leaf_tree :: DynTree where
  "three_leaf_tree =
     \<lparr>nodes =
        [\<lparr>hash = [1], left = None, right = Some 1, parent = Some 2, height = 0\<rparr>,
         \<lparr>hash = [2], left = Some 0, right = None, parent = Some 2, height = 0\<rparr>,
         \<lparr>hash = [1, 2], left = None, right = Some 3, parent = Some 4, height = 1\<rparr>,
         \<lparr>hash = [3], left = Some 2, right = None, parent = Some 4, height = 0\<rparr>,
         \<lparr>hash = [1, 2, 3], left = None, right = None, parent = None, height = 2\<rparr>],
      root = Some 4, leaves = [0, 1, 3], tree_height = 2, paused = False\<rparr>"

lemma Add_climb_stop:
  "x < length ns \<Longrightarrow> parent (ns ! x) = None \<Longrightarrow> Add_climb ns x = Some (Inr x)"
  by (subst Add_climb.simps) (simp add: deref_def)

lemma Add_climb_stop2:
  "x < length ns \<Longrightarrow> parent (ns ! x) = Some p \<Longrightarrow> p < length ns \<Longrightarrow>
   height (ns ! p) \<noteq> height (ns ! x) + 1 \<Longrightarrow> Add_climb ns x = Some (Inr x)"
  by (subst Add_climb.simps) (simp add: deref_def)

lemma Add_climb_step:
  "x < length ns \<Longrightarrow> parent (ns ! x) = Some p \<Longrightarrow> p < length ns \<Longrightarrow>
   height (ns ! p) = height (ns ! x) + 1 \<Longrightarrow> Add_climb ns x = Add_climb ns p"
  by (subst Add_climb.simps) (simp add: deref_def)

lemma Add_climb_chain:
  assumes "ptrs_ok ns" and "\<forall>i<length ns. height (ns ! i) \<le> H" and "x < length ns"
  shows "\<exists>c. Add_climb ns x = Some (Inr c) \<and> (x, c) \<in> (climb_rel ns)\<^sup>* \<and> c < length ns \<and>
             (\<forall>p. parent (ns ! c) = Some p \<longrightarrow> height (ns ! p) \<noteq> height (ns ! c) + 1)"
  using assms(3)
proof (induction "nat (H - height (ns ! x))" arbitrary: x rule: less_induct)
  case less
  show ?case
  proof (cases "parent (ns ! x)")
    case None
    with less.prems have "Add_climb ns x = Some (Inr x)" by (simp add: Add_climb_stop)
    with None less.prems show ?thesis by simp
  next
    case (Some p)
    with less.prems assms(1) have p: "p < length ns" unfolding ptrs_ok_def by blast
    show ?thesis
    proof (cases "height (ns ! p) = height (ns ! x) + 1")
      case False
      with Some p less.prems have "Add_climb ns x = Some (Inr x)" by (simp add: Add_climb_stop2)
      with Some False less.prems show ?thesis by simp
    next
      case True
      have "height (ns ! p) \<le> H" using assms(2) p by blast
      with True have "nat (H - height (ns ! p)) < nat (H - height (ns ! x))" by simp
      from less.hyps[OF this p] obtain c where c: "Add_climb ns p = Some (Inr c)"
        "(p, c) \<in> (climb_rel ns)\<^sup>*" "c < length ns"
        "\<forall>q. parent (ns ! c) = Some q \<longrightarrow> height (ns ! q) \<noteq> height (ns ! c) + 1" by blast
      have "(x, p) \<in> climb_rel ns" using Some less.prems True by (simp add: climb_rel_def)
      from this c(2) have "(x, c) \<in> (climb_rel ns)\<^sup>*" by (rule converse_rtrancl_into_rtrancl)
      moreover have "Add_climb ns x = Some (Inr c)"
        using Some p True less.prems c(1) by (simp add: Add_climb_step)
      ultimately show ?thesis using c by blast
    qed
  qed
qed

lemma climb_rel_sub: "(x, c) \<in> (climb_rel ns)\<^sup>* \<Longrightarrow> (x, c) \<in> (par_rel ns)\<^sup>*"
proof (induction rule: rtrancl_induct)
  case base
  show ?case by simp
next
  case (step y z)
  from step(2) have "(y, z) \<in> par_rel ns" by (simp add: climb_rel_def par_rel_def)
  with step.IH show ?case by (rule rtrancl_into_rtrancl)
qed

lemma Add_climb_spec:
  assumes "ptrs_ok ns" and "\<forall>i<length ns. height (ns ! i) \<le> H" and "x < length ns"
  shows "\<exists>c. Add_climb ns x = Some (Inr c) \<and> (x, c) \<in> (par_rel ns)\<^sup>* \<and> c < length ns \<and>
             (\<forall>p. parent (ns ! c) = Some p \<longrightarrow> height (ns ! p) \<noteq> height (ns ! c) + 1)"
  using Add_climb_chain[OF assms] climb_rel_sub by blast

lemma Add_link_linked:
  assumes c: "c < length ns" and x: "\<forall>x. left (ns ! c) = Some x \<longrightarrow> x < length ns \<and> x \<noteq> c"
  shows "Add_link (ns @ [leaf_node lf]) (length ns) c = (linked ns c lf, None)"
proof (cases "left (ns ! c)")
  case None
  then show ?thesis using c
    by (simp add: Add_link_def Let_def linked_def nth_append list_update_append leaf_node_def)
next
  case (Some x)
  with assms have "x < length ns" "x \<noteq> c" by auto
  then show ?thesis using c Some
    by (simp add: Add_link_def Let_def linked_def nth_append list_update_append leaf_node_def
        list_update_swap)
qed

lemma nth_append2:
  "i < length xs + 2 \<Longrightarrow> (xs @ [a, b]) ! i = (if i < length xs then xs ! i else if i = length xs then a else b)"
  by (cases "i < length xs"; cases "i = length xs") (simp_all add: nth_append less_Suc_eq)

lemma nth_list_update_if:
  "(xs[i := v]) ! j = (if i = j \<and> i < length xs then v else xs ! j)"
  by (cases "i < length xs") (simp_all add: nth_list_update list_update_beyond)

lemma length_linked: "length (linked ns c lf) = length ns + 2"
  by (simp add: linked_def split: option.split)

lemma linked_parent:
  "c < length ns \<Longrightarrow> i < length ns + 2 \<Longrightarrow>
   parent (linked ns c lf ! i) = (if i = length ns \<or> i = c then Some (length ns + 1)
                            else if i = length ns + 1 then parent (ns ! c) else parent (ns ! i))"
  by (cases "left (ns ! c)") (simp_all add: linked_def nth_append2 nth_list_update_if)

lemma linked_left:
  "c < length ns \<Longrightarrow> i < length ns + 2 \<Longrightarrow>
   left (linked ns c lf ! i) = (if i = length ns then Some c else if i = length ns + 1 then left (ns ! c)
                          else if i = c then None else left (ns ! i))"
  by (cases "left (ns ! c)") (simp_all add: linked_def nth_append2 nth_list_update_if)

lemma linked_right:
  "c < length ns \<Longrightarrow> i < length ns + 2 \<Longrightarrow>
   right (linked ns c lf ! i) = (if i = length ns \<or> i = length ns + 1 then None else if i = c then Some (length ns)
                           else if left (ns ! c) = Some i then Some (length ns + 1) else right (ns ! i))"
  by (cases "left (ns ! c)") (simp_all add: linked_def nth_append2 nth_list_update_if)

lemma linked_height:
  "c < length ns \<Longrightarrow> i < length ns + 2 \<Longrightarrow>
   height (linked ns c lf ! i) = (if i = length ns then 0 else if i = length ns + 1 then height (ns ! c) + 1
                            else height (ns ! i))"
  by (cases "left (ns ! c)") (simp_all add: linked_def nth_append2 nth_list_update_if)

lemma linked_hash:
  "c < length ns \<Longrightarrow> i < length ns + 2 \<Longrightarrow>
   hash (linked ns c lf ! i) = (if i = length ns then lf else if i = length ns + 1 then [] else hash (ns ! i))"
  by (cases "left (ns ! c)") (simp_all add: linked_def nth_append2 nth_list_update_if)

lemma cand_sibling:
  assumes "ptrs_ok ns" "sib_ok ns" "cand_ok ns c" "left (ns ! c) = Some x"
  shows "x < length ns" "x \<noteq> c" "right (ns ! x) = Some c" "parent (ns ! x) = parent (ns ! c)"
        "left (ns ! x) = None" "parent (ns ! c) \<noteq> None"
proof -
  have c: "c < length ns" "right (ns ! c) = None" using assms(3) by (simp_all add: cand_ok_def)
  show x: "x < length ns" using assms(1,4) c(1) unfolding ptrs_ok_def by blast
  show r: "right (ns ! x) = Some c" and "parent (ns ! x) = parent (ns ! c)"
    using assms(2,4) c(1) unfolding sib_ok_def by blast+
  from r c(2) show "x \<noteq> c" by auto
  from r x assms(2) show "left (ns ! x) = None" unfolding sib_ok_def by (metis option.distinct(1))
  from assms(2,4) c(1) show "parent (ns ! c) \<noteq> None" unfolding sib_ok_def by (metis option.distinct(1))
qed

lemma cand_root:
  assumes "sib_ok ns" "cand_ok ns c" "left (ns ! c) = None"
  shows "parent (ns ! c) = None"
  using assms unfolding sib_ok_def cand_ok_def by blast

lemmas linked_fields = linked_parent linked_left linked_right linked_height linked_hash

lemma linked_a:
  "c < length ns \<Longrightarrow> linked ns c lf ! length ns =
     \<lparr>hash = lf, left = Some c, right = None, parent = Some (length ns + 1), height = 0\<rparr>"
  by (cases "left (ns ! c)") (simp_all add: linked_def nth_append2)

lemma linked_b:
  "c < length ns \<Longrightarrow> linked ns c lf ! Suc (length ns) =
     \<lparr>hash = [], left = left (ns ! c), right = None, parent = parent (ns ! c), height = height (ns ! c) + 1\<rparr>"
  by (cases "left (ns ! c)") (simp_all add: linked_def nth_append2)

lemma linked_c:
  "c < length ns \<Longrightarrow> linked ns c lf ! c =
     (ns ! c)\<lparr>right := Some (length ns), parent := Some (length ns + 1), left := None\<rparr>"
  by (cases "left (ns ! c)") (simp_all add: linked_def nth_append2 nth_list_update_if)

lemma linked_x:
  "c < length ns \<Longrightarrow> left (ns ! c) = Some x \<Longrightarrow> x < length ns \<Longrightarrow> x \<noteq> c \<Longrightarrow>
   linked ns c lf ! x = (ns ! x)\<lparr>right := Some (length ns + 1)\<rparr>"
  by (simp add: linked_def nth_append2 nth_list_update_if)

lemma linked_other:
  "c < length ns \<Longrightarrow> i < length ns \<Longrightarrow> i \<noteq> c \<Longrightarrow> left (ns ! c) \<noteq> Some i \<Longrightarrow>
   linked ns c lf ! i = ns ! i"
  by (cases "left (ns ! c)") (simp_all add: linked_def nth_append2 nth_list_update_if)

lemma linked_cases:
  assumes "i < length ns + 2"
  obtains (a) "i = length ns" | (b) "i = Suc (length ns)" | (c) "i = c" "i < length ns"
        | (x) "left (ns ! c) = Some i" "i < length ns" "i \<noteq> c"
        | (other) "i < length ns" "i \<noteq> c" "left (ns ! c) \<noteq> Some i"
  using assms by (cases "i < length ns"; cases "i = c"; cases "left (ns ! c) = Some i"; cases "i = length ns") auto

lemma ptrs_ok_linked:
  assumes "ptrs_ok ns" "c < length ns"
  shows "ptrs_ok (linked ns c lf)"
  unfolding ptrs_ok_def length_linked
proof (intro allI impI)
  fix i assume i: "i < length ns + 2"
  have old: "\<And>i j. i < length ns \<Longrightarrow> left (ns ! i) = Some j \<Longrightarrow> j < length ns + 2"
     "\<And>i j. i < length ns \<Longrightarrow> right (ns ! i) = Some j \<Longrightarrow> j < length ns + 2"
     "\<And>i j. i < length ns \<Longrightarrow> parent (ns ! i) = Some j \<Longrightarrow> j < length ns + 2"
    using assms(1) unfolding ptrs_ok_def by (blast intro: trans_less_add1)+
  from i show "(\<forall>j. left (linked ns c lf ! i) = Some j \<longrightarrow> j < length ns + 2) \<and>
         (\<forall>j. right (linked ns c lf ! i) = Some j \<longrightarrow> j < length ns + 2) \<and>
         (\<forall>j. parent (linked ns c lf ! i) = Some j \<longrightarrow> j < length ns + 2)"
  proof (cases rule: linked_cases[where c = c])
    case a
    then show ?thesis using assms(2) by (simp add: linked_a)
  next
    case b
    then show ?thesis using assms(2) old[of c] by (simp add: linked_b)
  next
    case c
    then show ?thesis using assms(2) by (simp add: linked_c)
  next
    case x
    then show ?thesis using assms(2) old[of i] by (simp add: linked_x)
  next
    case other
    then show ?thesis using assms(2) old[of i] by (simp add: linked_other)
  qed
qed

lemma sib_okD:
  assumes "sib_ok ns" "ptrs_ok ns" "i < length ns"
  shows "left (ns ! i) = Some l \<Longrightarrow> l < length ns \<and> right (ns ! l) = Some i \<and> parent (ns ! l) = parent (ns ! i)"
    and "right (ns ! i) = Some r \<Longrightarrow> r < length ns \<and> left (ns ! r) = Some i \<and> parent (ns ! r) = parent (ns ! i)"
    and "left (ns ! i) = None \<or> right (ns ! i) = None"
    and "parent (ns ! i) = None \<longleftrightarrow> left (ns ! i) = None \<and> right (ns ! i) = None"
proof -
  note A = assms(1)[unfolded sib_ok_def, rule_format, OF assms(3)]
  note B = assms(2)[unfolded ptrs_ok_def, rule_format, OF assms(3)]
  note A1 = A[THEN conjunct1, rule_format]
  note A2 = A[THEN conjunct2, THEN conjunct1, rule_format]
  note B1 = B[THEN conjunct1, rule_format]
  note B2 = B[THEN conjunct2, THEN conjunct1, rule_format]
  show "left (ns ! i) = Some l \<Longrightarrow> l < length ns \<and> right (ns ! l) = Some i \<and> parent (ns ! l) = parent (ns ! i)"
    using A1[of l] B1[of l] by blast
  show "right (ns ! i) = Some r \<Longrightarrow> r < length ns \<and> left (ns ! r) = Some i \<and> parent (ns ! r) = parent (ns ! i)"
    using A2[of r] B2[of r] by blast
  show "left (ns ! i) = None \<or> right (ns ! i) = None"
    by (rule A[THEN conjunct2, THEN conjunct2, THEN conjunct1])
  show "parent (ns ! i) = None \<longleftrightarrow> left (ns ! i) = None \<and> right (ns ! i) = None"
    by (rule A[THEN conjunct2, THEN conjunct2, THEN conjunct2])
qed

lemma sib_ok_linked:
  assumes p: "ptrs_ok ns" and s: "sib_ok ns" and co: "cand_ok ns c"
  shows "sib_ok (linked ns c lf)"
  unfolding sib_ok_def length_linked
proof (intro allI impI)
  fix i assume i: "i < length ns + 2"
  let ?n = "linked ns c lf"
  have c: "c < length ns" "right (ns ! c) = None" using co by (simp_all add: cand_ok_def)
  note cs = cand_sibling[OF p s co]
  note D = sib_okD[OF s p]
  from i show "(\<forall>l. left (?n ! i) = Some l \<longrightarrow> right (?n ! l) = Some i \<and> parent (?n ! l) = parent (?n ! i)) \<and>
        (\<forall>r. right (?n ! i) = Some r \<longrightarrow> left (?n ! r) = Some i \<and> parent (?n ! r) = parent (?n ! i)) \<and>
        (left (?n ! i) = None \<or> right (?n ! i) = None) \<and>
        (parent (?n ! i) = None \<longleftrightarrow> left (?n ! i) = None \<and> right (?n ! i) = None)"
  proof (cases rule: linked_cases[where c = c])
    case a
    then show ?thesis using c by (simp add: linked_a linked_c)
  next
    case b
    show ?thesis
    proof (cases "left (ns ! c)")
      case None
      with cand_root[OF s co] b c show ?thesis by (simp add: linked_b)
    next
      case (Some x)
      from cs[OF Some] b c Some show ?thesis by (simp add: linked_b linked_x)
    qed
  next
    case c
    then show ?thesis by (simp add: linked_c linked_a)
  next
    case x
    from cs[OF x(1)] x c show ?thesis by (simp add: linked_x linked_b)
  next
    case other
    have L: "right (?n ! l) = Some i \<and> parent (?n ! l) = parent (ns ! i)" if l: "left (ns ! i) = Some l" for l
    proof -
      from D(1)[OF other(1) l] have l': "l < length ns" "right (ns ! l) = Some i" "parent (ns ! l) = parent (ns ! i)" by auto
      from l'(2) c(2) have "l \<noteq> c" by auto
      moreover have "left (ns ! c) \<noteq> Some l"
      proof
        assume "left (ns ! c) = Some l"
        from cs(3)[OF this] l'(2) other(2) show False by simp
      qed
      ultimately have "?n ! l = ns ! l" using c(1) l'(1) by (simp add: linked_other)
      with l' show ?thesis by simp
    qed
    have R: "left (?n ! r) = Some i \<and> parent (?n ! r) = parent (ns ! i)" if r: "right (ns ! i) = Some r" for r
    proof -
      from D(2)[OF other(1) r] have r': "r < length ns" "left (ns ! r) = Some i" "parent (ns ! r) = parent (ns ! i)" by auto
      from r'(2) other(3) have "r \<noteq> c" by auto
      moreover have "left (ns ! c) \<noteq> Some r"
      proof
        assume "left (ns ! c) = Some r"
        from cs(5)[OF this] r'(2) show False by simp
      qed
      ultimately have "?n ! r = ns ! r" using c(1) r'(1) by (simp add: linked_other)
      with r' show ?thesis by simp
    qed
    have "?n ! i = ns ! i" using other c(1) by (simp add: linked_other)
    with L R D(3,4)[OF other(1)] show ?thesis by simp
  qed
qed

lemma ptrs_okD:
  assumes "ptrs_ok ns" "i < length ns"
  shows "left (ns ! i) = Some j \<Longrightarrow> j < length ns"
    and "right (ns ! i) = Some j \<Longrightarrow> j < length ns"
    and "parent (ns ! i) = Some j \<Longrightarrow> j < length ns"
proof -
  note B = assms(1)[unfolded ptrs_ok_def, rule_format, OF assms(2)]
  show "left (ns ! i) = Some j \<Longrightarrow> j < length ns" by (rule B[THEN conjunct1, rule_format])
  show "right (ns ! i) = Some j \<Longrightarrow> j < length ns" by (rule B[THEN conjunct2, THEN conjunct1, rule_format])
  show "parent (ns ! i) = Some j \<Longrightarrow> j < length ns" by (rule B[THEN conjunct2, THEN conjunct2, rule_format])
qed

lemma kids_okD:
  assumes "kids_ok ns" "i < length ns" "j < length ns" "parent (ns ! i) \<noteq> None" "parent (ns ! i) = parent (ns ! j)"
  shows "i = j \<or> left (ns ! i) = Some j \<or> right (ns ! i) = Some j"
  using assms(1)[unfolded kids_ok_def, rule_format, OF assms(2,3)] assms(4,5) by blast

lemma cand_kids:
  assumes "kids_ok ns" "cand_ok ns c" "j < length ns" "parent (ns ! c) \<noteq> None" "parent (ns ! j) = parent (ns ! c)"
  shows "j = c \<or> left (ns ! c) = Some j"
proof -
  have c: "c < length ns" "right (ns ! c) = None" using assms(2) by (simp_all add: cand_ok_def)
  from kids_okD[OF assms(1) c(1) assms(3,4)] assms(5) c(2) show ?thesis by auto
qed

lemma linked_parent_new:
  assumes p: "ptrs_ok ns" and c: "c < length ns" and j: "j < length ns + 2"
    and pj: "parent (linked ns c lf ! j) = Some (Suc (length ns))"
  shows "j = length ns \<or> j = c"
  using j
proof (cases rule: linked_cases[where c = c])
  case a then show ?thesis by simp
next
  case b
  with pj c have "parent (ns ! c) = Some (Suc (length ns))" by (simp add: linked_b)
  from ptrs_okD(3)[OF p c this] show ?thesis by simp
next
  case c then show ?thesis by simp
next
  case x
  with pj c have "parent (ns ! j) = Some (Suc (length ns))" by (simp add: linked_x)
  from ptrs_okD(3)[OF p x(2) this] show ?thesis by simp
next
  case other
  with pj c have "parent (ns ! j) = Some (Suc (length ns))" by (simp add: linked_other)
  from ptrs_okD(3)[OF p other(1) this] show ?thesis by simp
qed

lemma linked_parent_old:
  assumes p: "ptrs_ok ns" and s: "sib_ok ns" and k: "kids_ok ns" and co: "cand_ok ns c" and j: "j < length ns + 2"
    and pc: "parent (ns ! c) \<noteq> None"
    and pj: "parent (linked ns c lf ! j) = parent (ns ! c)"
  shows "j = Suc (length ns) \<or> left (ns ! c) = Some j"
proof -
  have c: "c < length ns" "right (ns ! c) = None" using co by (simp_all add: cand_ok_def)
  from pc obtain pp where pp: "parent (ns ! c) = Some pp" by blast
  from ptrs_okD(3)[OF p c(1) pp] have ppl: "pp < length ns" .
  from j show ?thesis
  proof (cases rule: linked_cases[where c = c])
    case a
    with pj c pp ppl show ?thesis by (simp add: linked_a)
  next
    case b then show ?thesis by simp
  next
    case c
    with pj pp ppl show ?thesis by (simp add: linked_c)
  next
    case x then show ?thesis by simp
  next
    case other
    with pj c have "parent (ns ! j) = parent (ns ! c)" by (simp add: linked_other)
    from cand_kids[OF k co other(1) pc this] other show ?thesis by simp
  qed
qed

lemma kids_ok_linked:
  assumes p: "ptrs_ok ns" and s: "sib_ok ns" and k: "kids_ok ns" and co: "cand_ok ns c"
  shows "kids_ok (linked ns c lf)"
  unfolding kids_ok_def length_linked
proof (intro allI impI)
  fix i j assume i: "i < length ns + 2" and j: "j < length ns + 2"
  let ?n = "linked ns c lf"
  assume pij: "parent (?n ! i) \<noteq> None \<and> parent (?n ! i) = parent (?n ! j)"
  have c: "c < length ns" "right (ns ! c) = None" using co by (simp_all add: cand_ok_def)
  note cs = cand_sibling[OF p s co]
  note PN = linked_parent_new[OF p c(1) j]
  note PO = linked_parent_old[OF p s k co j]
  from i show "i = j \<or> left (?n ! i) = Some j \<or> right (?n ! i) = Some j"
  proof (cases rule: linked_cases[where c = c])
    case a
    with pij c have "parent (?n ! j) = Some (Suc (length ns))" by (simp add: linked_a)
    from PN[OF this] a c show ?thesis by (auto simp: linked_a)
  next
    case c
    with pij have "parent (?n ! j) = Some (Suc (length ns))" by (simp add: linked_c)
    from PN[OF this] c show ?thesis by (auto simp: linked_c)
  next
    case b
    have pb: "parent (?n ! i) = parent (ns ! c)" using b c by (simp add: linked_b)
    note q = pij[unfolded pb]
    from PO[OF q[THEN conjunct1] q[THEN conjunct2, symmetric]] b c show ?thesis by (auto simp: linked_b)
  next
    case x
    from cs[OF x(1)] have xs: "parent (ns ! i) = parent (ns ! c)" "parent (ns ! c) \<noteq> None" by simp_all
    with pij c x have "parent (?n ! j) = parent (ns ! c)" by (simp add: linked_x)
    from PO[OF xs(2) this] x c show ?thesis by (auto simp: linked_x)
  next
    case other
    then have ni: "?n ! i = ns ! i" using c by (simp add: linked_other)
    note q' = pij[unfolded ni]
    note pi = q'[THEN conjunct1] q'[THEN conjunct2, symmetric]
    then obtain q where q: "parent (ns ! i) = Some q" by blast
    from ptrs_okD(3)[OF p other(1) q] have ql: "q < length ns" .
    have nc: "parent (ns ! i) \<noteq> parent (ns ! c)"
    proof
      assume e: "parent (ns ! i) = parent (ns ! c)"
      from pi(1) have "parent (ns ! c) \<noteq> None" unfolding e .
      from cand_kids[OF k co other(1) this e] other show False by simp
    qed
    from j show ?thesis
    proof (cases rule: linked_cases[where c = c])
      case a
      with pi q ql c show ?thesis by (simp add: linked_a)
    next
      case b
      with pi nc c show ?thesis by (simp add: linked_b)
    next
      case c
      with pi q ql show ?thesis by (simp add: linked_c)
    next
      case x
      from cs[OF x(1)] pi nc x c show ?thesis by (simp add: linked_x)
    next
      case o2: other
      then have "?n ! j = ns ! j" using c by (simp add: linked_other)
      with pi have "parent (ns ! i) = parent (ns ! j)" by simp
      from kids_okD[OF k other(1) o2(1) pi(1) this] ni show ?thesis by simp
    qed
  qed
qed

lemma heights_okD:
  assumes "heights_ok ns" "i < length ns"
  shows "0 \<le> height (ns ! i)"
    and "parent (ns ! i) = Some p \<Longrightarrow> height (ns ! i) < height (ns ! p)"
    and "parent (ns ! i) = Some p \<Longrightarrow> right (ns ! i) \<noteq> None \<Longrightarrow> height (ns ! p) = height (ns ! i) + 1"
    and "left (ns ! i) = Some l \<Longrightarrow> height (ns ! i) \<le> height (ns ! l)"
proof -
  note A = assms(1)[unfolded heights_ok_def, rule_format, OF assms(2)]
  show "0 \<le> height (ns ! i)" by (rule A[THEN conjunct1])
  show "parent (ns ! i) = Some p \<Longrightarrow> height (ns ! i) < height (ns ! p)"
    by (rule A[THEN conjunct2, THEN conjunct1, rule_format])
  show "parent (ns ! i) = Some p \<Longrightarrow> right (ns ! i) \<noteq> None \<Longrightarrow> height (ns ! p) = height (ns ! i) + 1"
    by (rule A[THEN conjunct2, THEN conjunct2, THEN conjunct1, rule_format])
  show "left (ns ! i) = Some l \<Longrightarrow> height (ns ! i) \<le> height (ns ! l)"
    by (rule A[THEN conjunct2, THEN conjunct2, THEN conjunct2, rule_format])
qed

lemma linked_height_old: "c < length ns \<Longrightarrow> j < length ns \<Longrightarrow> height (linked ns c lf ! j) = height (ns ! j)"
  by (simp add: linked_height)

lemma linked_hash_old: "c < length ns \<Longrightarrow> j < length ns \<Longrightarrow> hash (linked ns c lf ! j) = hash (ns ! j)"
  by (simp add: linked_hash)

lemma heights_ok_linked:
  assumes p: "ptrs_ok ns" and s: "sib_ok ns" and h: "heights_ok ns" and co: "cand_ok ns c"
  shows "heights_ok (linked ns c lf)"
  unfolding heights_ok_def length_linked
proof (intro allI impI)
  fix i assume i: "i < length ns + 2"
  let ?n = "linked ns c lf"
  have c: "c < length ns" "right (ns ! c) = None" using co by (simp_all add: cand_ok_def)
  have stop: "\<And>q. parent (ns ! c) = Some q \<Longrightarrow> height (ns ! q) \<noteq> height (ns ! c) + 1"
    using co by (simp add: cand_ok_def)
  note cs = cand_sibling[OF p s co]
  note H = heights_okD[OF h]
  note ho = linked_height_old[OF c(1)]
  have hb: "height (?n ! Suc (length ns)) = height (ns ! c) + 1" using c by (simp add: linked_b)
  from i show "0 \<le> height (?n ! i) \<and>
        (\<forall>p. parent (?n ! i) = Some p \<longrightarrow> height (?n ! i) < height (?n ! p)) \<and>
        (\<forall>p. parent (?n ! i) = Some p \<longrightarrow> right (?n ! i) \<noteq> None \<longrightarrow> height (?n ! p) = height (?n ! i) + 1) \<and>
        (\<forall>l. left (?n ! i) = Some l \<longrightarrow> height (?n ! i) \<le> height (?n ! l))"
  proof (cases rule: linked_cases[where c = c])
    case a
    with c H(1)[OF c(1)] hb ho[OF c(1)] show ?thesis by (simp add: linked_a)
  next
    case b
    have 1: "height (?n ! i) < height (?n ! q)" if q: "parent (ns ! c) = Some q" for q
    proof -
      from ptrs_okD(3)[OF p c(1) q] have "q < length ns" .
      with H(2)[OF c(1) q] stop[OF q] ho[OF this] b hb show ?thesis by simp
    qed
    have 2: "height (?n ! i) \<le> height (?n ! x)" if x: "left (ns ! c) = Some x" for x
    proof -
      from cs[OF x] obtain q where q: "parent (ns ! c) = Some q" "parent (ns ! x) = Some q" by auto
      from ptrs_okD(3)[OF p c(1) q(1)] have ql: "q < length ns" .
      from cs(3)[OF x] have "right (ns ! x) \<noteq> None" by simp
      from H(3)[OF cs(1)[OF x] q(2) this] H(2)[OF c(1) q(1)] stop[OF q(1)] ho[OF cs(1)[OF x]] b hb
      show ?thesis by simp
    qed
    from b c H(1)[OF c(1)] 1 2 show ?thesis by (simp add: linked_b)
  next
    case c
    with H(1)[OF c(2)] hb show ?thesis by (simp add: linked_c)
  next
    case x
    from cs[OF x(1)] obtain q where q: "parent (ns ! c) = Some q" "parent (ns ! i) = Some q" by auto
    from ptrs_okD(3)[OF p c(1) q(1)] have ql: "q < length ns" .
    from cs(3)[OF x(1)] have "right (ns ! i) \<noteq> None" by simp
    from H(3)[OF x(2) q(2) this] H(1)[OF x(2)] ho[OF ql] cs(5)[OF x(1)] x c q show ?thesis
      by (simp add: linked_x)
  next
    case other
    then have ni: "?n ! i = ns ! i" using c by (simp add: linked_other)
    have 1: "height (ns ! i) < height (?n ! q)" if q: "parent (ns ! i) = Some q" for q
      using H(2)[OF other(1) q] ho[OF ptrs_okD(3)[OF p other(1) q]] by simp
    have 2: "height (?n ! q) = height (ns ! i) + 1" if q: "parent (ns ! i) = Some q" "right (ns ! i) \<noteq> None" for q
      using H(3)[OF other(1) q] ho[OF ptrs_okD(3)[OF p other(1) q(1)]] by simp
    have 3: "height (ns ! i) \<le> height (?n ! l)" if l: "left (ns ! i) = Some l" for l
      using H(4)[OF other(1) l] ho[OF ptrs_okD(1)[OF p other(1) l]] by simp
    from 1 2 3 H(1)[OF other(1)] show ?thesis unfolding ni by blast
  qed
qed

lemma root_okD:
  assumes "root_ok ns (Some r)"
  shows "r < length ns" and "i < length ns \<Longrightarrow> (parent (ns ! i) = None \<longleftrightarrow> i = r)"
  using assms unfolding root_ok_def by simp_all

lemma root_ok_linked:
  assumes p: "ptrs_ok ns" and s: "sib_ok ns" and co: "cand_ok ns c" and r: "root_ok ns (Some r)"
  shows "root_ok (linked ns c lf)
           (if parent (linked ns c lf ! Suc (length ns)) = None then Some (Suc (length ns)) else Some r)"
proof -
  let ?n = "linked ns c lf"
  have c: "c < length ns" "right (ns ! c) = None" using co by (simp_all add: cand_ok_def)
  note cs = cand_sibling[OF p s co]
  note R = root_okD[OF r]
  have pb: "parent (?n ! Suc (length ns)) = parent (ns ! c)" using c by (simp add: linked_b)
  show ?thesis
  proof (cases "parent (ns ! c)")
    case None
    then have cr: "c = r" using R(2)[OF c(1)] by simp
    from None sib_okD(4)[OF s p c(1)] have lc: "left (ns ! c) = None" by simp
    have "parent (?n ! i) = None \<longleftrightarrow> i = Suc (length ns)" if i: "i < length ns + 2" for i
      using i
    proof (cases rule: linked_cases[where c = c])
      case a then show ?thesis using c by (simp add: linked_a)
    next
      case b then show ?thesis using pb None by simp
    next
      case c then show ?thesis by (simp add: linked_c)
    next
      case x then show ?thesis using lc by simp
    next
      case other
      then show ?thesis using c R(2)[OF other(1)] cr by (simp add: linked_other)
    qed
    then show ?thesis using pb None by (simp add: root_ok_def length_linked)
  next
    case (Some q)
    then have cr: "c \<noteq> r" using R(2)[OF c(1)] by simp
    have "parent (?n ! i) = None \<longleftrightarrow> i = r" if i: "i < length ns + 2" for i
      using i
    proof (cases rule: linked_cases[where c = c])
      case a then show ?thesis using c R(1) by (simp add: linked_a)
    next
      case b then show ?thesis using pb Some R(1) by simp
    next
      case c then show ?thesis using cr by (simp add: linked_c)
    next
      case x
      from cs(4)[OF x(1)] Some R(2)[OF x(2)] x c show ?thesis by (simp add: linked_x)
    next
      case other
      then show ?thesis using c R(2)[OF other(1)] by (simp add: linked_other)
    qed
    then show ?thesis using pb Some R(1) by (simp add: root_ok_def length_linked)
  qed
qed

lemma leaves_ok_linked:
  assumes lo: "leaves_ok ns ls" and c: "c < length ns" and ne: "ls \<noteq> []"
    and lc: "(last ls, c) \<in> (par_rel ns)\<^sup>*"
  shows "leaves_ok (linked ns c lf) (ls @ [length ns])"
proof -
  let ?n = "linked ns c lf"
  have old: "l < length ns + 2 \<and> height (?n ! l) = 0 \<and> parent (?n ! l) \<noteq> None" if l: "l \<in> set ls" for l
  proof -
    from l lo have ll: "l < length ns" "height (ns ! l) = 0" "2 \<le> length ls \<longrightarrow> parent (ns ! l) \<noteq> None"
      unfolding leaves_ok_def by blast+
    have "parent (?n ! l) \<noteq> None"
    proof (cases "l = c")
      case True then show ?thesis using c by (simp add: linked_c)
    next
      case False
      with ll(1) c have e: "parent (?n ! l) = parent (ns ! l)" by (simp add: linked_parent)
      show ?thesis
      proof (cases "2 \<le> length ls")
        case True with ll(3) e show ?thesis by simp
      next
        case f: False
        from f have "length ls < 2" by simp
        with ne have "length ls = 1" by (simp add: less_Suc_eq numeral_2_eq_2)
        then obtain l0 where "ls = [l0]" by (auto simp: length_Suc_conv)
        with l have "l = last ls" by simp
        with lc False have "\<exists>z. (l, z) \<in> par_rel ns" by (metis converse_rtranclE)
        then show ?thesis unfolding e by (auto simp: par_rel_def)
      qed
    qed
    with linked_height_old[OF c ll(1), of lf] ll show ?thesis by simp
  qed
  moreover have "height (?n ! length ns) = 0" "parent (?n ! length ns) \<noteq> None"
    using c by (simp_all add: linked_a)
  moreover have "?n \<noteq> []" using length_linked[of ns c lf] by auto
  ultimately show ?thesis unfolding leaves_ok_def length_linked by auto
qed

lemma bound_linked:
  assumes "\<forall>i<length ns. height (ns ! i) \<le> H" "c < length ns" "i < length ns + 2" "0 \<le> H"
  shows "height (linked ns c lf ! i) \<le> max H (height (linked ns c lf ! Suc (length ns)))"
proof -
  have "i < length ns \<or> i = length ns \<or> i = Suc (length ns)" using assms(3) by auto
  then show ?thesis
  proof (elim disjE)
    assume i: "i < length ns"
    with assms(1) have "height (ns ! i) \<le> H" by blast
    with linked_height_old[OF assms(2) i] show ?thesis by simp
  next
    assume "i = length ns"
    then have "height (linked ns c lf ! i) = 0" using assms(2) by (simp add: linked_a)
    with assms(4) show ?thesis by simp
  next
    assume "i = Suc (length ns)"
    then show ?thesis by simp
  qed
qed

lemma par_relD: "(i, q) \<in> par_rel ns \<Longrightarrow> i < length ns \<and> parent (ns ! i) = Some q"
  by (simp add: par_rel_def)

lemma par_relI: "i < length ns \<Longrightarrow> parent (ns ! i) = Some q \<Longrightarrow> (i, q) \<in> par_rel ns"
  by (simp add: par_rel_def)

lemma anc_height:
  assumes p: "ptrs_ok ns" and h: "heights_ok ns" and a: "(i, q) \<in> (par_rel ns)\<^sup>+"
  shows "q < length ns \<and> height (ns ! i) < height (ns ! q)"
  using a
proof (induction rule: trancl_induct)
  case (base y)
  from par_relD[OF base] ptrs_okD(3)[OF p] heights_okD(2)[OF h] show ?case by blast
next
  case (step y z)
  from par_relD[OF step(2)] have yz: "y < length ns" "parent (ns ! y) = Some z" by simp_all
  from ptrs_okD(3)[OF p yz] heights_okD(2)[OF h yz] step.IH show ?case by simp
qed

lemma anc_in_range:
  assumes p: "ptrs_ok ns" and a: "(i, q) \<in> (par_rel ns)\<^sup>*" and i: "i < length ns"
  shows "q < length ns"
  using a i
proof (induction rule: rtrancl_induct)
  case base then show ?case .
next
  case (step y z)
  from par_relD[OF step(2)] ptrs_okD(3)[OF p] show ?case by blast
qed

lemma spine_linked_anc:
  assumes p: "ptrs_ok ns" and s: "sib_ok ns" and h: "heights_ok ns" and co: "cand_ok ns c"
    and a: "(length ns, q) \<in> (par_rel (linked ns c lf))\<^sup>*"
  shows "q = length ns \<or> q = Suc (length ns) \<or> (c, q) \<in> (par_rel ns)\<^sup>+"
  using a
proof (induction rule: rtrancl_induct)
  case base
  then show ?case by simp
next
  case (step y z)
  let ?n = "linked ns c lf"
  have c: "c < length ns" using co by (simp add: cand_ok_def)
  from par_relD[OF step(2)] have yz: "y < length ns + 2" "parent (?n ! y) = Some z"
    by (simp_all add: length_linked)
  from step.IH show ?case
  proof (elim disjE)
    assume "y = length ns"
    with yz c show ?thesis by (simp add: linked_a)
  next
    assume "y = Suc (length ns)"
    with yz c have "parent (ns ! c) = Some z" by (simp add: linked_b)
    with c have "(c, z) \<in> par_rel ns" by (simp add: par_rel_def)
    then show ?thesis by blast
  next
    assume cy: "(c, y) \<in> (par_rel ns)\<^sup>+"
    from anc_height[OF p h cy] have y: "y < length ns" "y \<noteq> c" by auto
    have "parent (?n ! y) = parent (ns ! y)" using y c by (simp add: linked_parent)
    with yz y have "(y, z) \<in> par_rel ns" by (simp add: par_rel_def)
    with cy have "(c, z) \<in> (par_rel ns)\<^sup>+" by (rule trancl_into_trancl)
    then show ?thesis by blast
  qed
qed

lemma spine_ok_linked:
  assumes p: "ptrs_ok ns" and s: "sib_ok ns" and h: "heights_ok ns" and co: "cand_ok ns c"
    and sp: "spine_ok ns ls" and ls: "ls \<noteq> []" and lc: "(last ls, c) \<in> (par_rel ns)\<^sup>*"
  shows "spine_ok (linked ns c lf) (ls @ [length ns])"
  unfolding spine_ok_def
proof (intro impI allI)
  fix q
  let ?n = "linked ns c lf"
  have c: "c < length ns" "right (ns ! c) = None" using co by (simp_all add: cand_ok_def)
  assume "(last (ls @ [length ns]), q) \<in> (par_rel ?n)\<^sup>*"
  then have "(length ns, q) \<in> (par_rel ?n)\<^sup>*" by simp
  from spine_linked_anc[OF p s h co this] show "right (?n ! q) = None"
  proof (elim disjE)
    assume "q = length ns" then show ?thesis using c by (simp add: linked_a)
  next
    assume "q = Suc (length ns)" then show ?thesis using c by (simp add: linked_b)
  next
    assume cq: "(c, q) \<in> (par_rel ns)\<^sup>+"
    from anc_height[OF p h cq] have q: "q < length ns" "q \<noteq> c" by auto
    from lc cq have "(last ls, q) \<in> (par_rel ns)\<^sup>*" by simp
    with sp ls have rq: "right (ns ! q) = None" unfolding spine_ok_def by blast
    have "left (ns ! c) \<noteq> Some q"
    proof
      assume "left (ns ! c) = Some q"
      from cand_sibling(3)[OF p s co this] rq show False by simp
    qed
    with q c rq show ?thesis by (simp add: linked_other)
  qed
qed

lemma same_shape_refl: "same_shape ns ns"
  by (simp add: same_shape_def)

lemma same_shape_trans: "same_shape ns ns' \<Longrightarrow> same_shape ns' ns'' \<Longrightarrow> same_shape ns ns''"
  by (simp add: same_shape_def)

lemma same_shapeD:
  assumes "same_shape ns ns'"
  shows "length ns' = length ns" "left (ns' ! i) = left (ns ! i)" "right (ns' ! i) = right (ns ! i)"
        "parent (ns' ! i) = parent (ns ! i)" "height (ns' ! i) = height (ns ! i)"
  using assms by (simp_all add: same_shape_def)

lemma same_shape_sethash: "same_shape ns (ns[k := (ns ! k)\<lparr>hash := v\<rparr>])"
  by (simp add: same_shape_def nth_list_update_if)

lemma same_shape_invs:
  assumes "same_shape ns ns'"
  shows "ptrs_ok ns' = ptrs_ok ns" "sib_ok ns' = sib_ok ns" "kids_ok ns' = kids_ok ns"
        "heights_ok ns' = heights_ok ns" "par_rel ns' = par_rel ns"
        "root_ok ns' rt = root_ok ns rt" "leaves_ok ns' ls = leaves_ok ns ls" "spine_ok ns' ls = spine_ok ns ls"
proof -
  note D = same_shapeD[OF assms]
  show "ptrs_ok ns' = ptrs_ok ns" by (simp add: ptrs_ok_def D)
  show "sib_ok ns' = sib_ok ns" by (simp add: sib_ok_def D)
  show "kids_ok ns' = kids_ok ns" by (simp add: kids_ok_def D)
  show "heights_ok ns' = heights_ok ns" by (simp add: heights_ok_def D)
  show pr: "par_rel ns' = par_rel ns" by (simp add: par_rel_def D)
  have e: "(ns' = []) = (ns = [])" using D(1) by (metis length_0_conv)
  show "root_ok ns' rt = root_ok ns rt"
    by (cases rt) (simp_all add: root_ok_def D e)
  show "leaves_ok ns' ls = leaves_ok ns ls"
    by (simp add: leaves_ok_def D e)
  show "spine_ok ns' ls = spine_ok ns ls" by (simp add: spine_ok_def D pr)
qed

lemma left_child_unique:
  assumes s: "sib_ok ns" and p: "ptrs_ok ns" and k: "kids_ok ns"
    and l: "l < length ns" "parent (ns ! l) = Some q" "right (ns ! l) = Some r"
    and l': "l' < length ns" "parent (ns ! l') = Some q" "right (ns ! l') = Some r'"
  shows "l' = l \<and> r' = r"
proof -
  have "parent (ns ! l) \<noteq> None" "parent (ns ! l) = parent (ns ! l')" using l l' by simp_all
  from kids_okD[OF k l(1) l'(1) this] have "l = l' \<or> left (ns ! l) = Some l' \<or> right (ns ! l) = Some l'" .
  moreover have "left (ns ! l) = None" using sib_okD(3)[OF s p l(1)] l(3) by simp
  moreover have "left (ns ! l') = None" using sib_okD(3)[OF s p l'(1)] l'(3) by simp
  moreover have "right (ns ! l) = Some l' \<Longrightarrow> left (ns ! l') = Some l"
    using sib_okD(2)[OF s p l(1)] by blast
  ultimately have "l = l'" by auto
  with l l' show ?thesis by simp
qed

lemma rehash_no_parent:
  "n < length ns \<Longrightarrow> \<not> rp \<or> parent (ns ! n) = None \<Longrightarrow>
   rehash sha ns (Some n) a b rp = Some (ns[n := (ns ! n)\<lparr>hash := sha (a @ b)\<rparr>], None)"
  by (subst rehash.simps) (auto simp: Let_def)

lemma rehash_right_child:
  "n < length ns \<Longrightarrow> parent (ns ! n) = Some pn \<Longrightarrow> left (ns ! n) = Some ln \<Longrightarrow> ln < length ns \<Longrightarrow>
   ns1 = ns[n := (ns ! n)\<lparr>hash := sha (a @ b)\<rparr>] \<Longrightarrow>
   rehash sha ns (Some n) a b True = rehash sha ns1 (Some pn) (hash (ns1 ! ln)) (hash (ns1 ! n)) True"
  by (subst rehash.simps) (simp add: Let_def deref_def)

lemma rehash_left_child:
  "n < length ns \<Longrightarrow> parent (ns ! n) = Some pn \<Longrightarrow> left (ns ! n) = None \<Longrightarrow> right (ns ! n) = Some rn \<Longrightarrow>
   rn < length ns \<Longrightarrow> ns1 = ns[n := (ns ! n)\<lparr>hash := sha (a @ b)\<rparr>] \<Longrightarrow>
   rehash sha ns (Some n) a b True = rehash sha ns1 (Some pn) (hash (ns1 ! n)) (hash (ns1 ! rn)) True"
  by (subst rehash.simps) (simp add: Let_def deref_def)

lemma anc_step:
  assumes "(n, q) \<in> (par_rel ns)\<^sup>*" "parent (ns ! n) = Some pn"
  shows "q = n \<or> (pn, q) \<in> (par_rel ns)\<^sup>*"
  using assms(1)
proof (cases rule: converse_rtranclE)
  case base then show ?thesis by simp
next
  case (step y)
  from par_relD[OF step(1)] assms(2) have "y = pn" by simp
  with step(2) show ?thesis by simp
qed

lemma anc_root:
  assumes "(n, q) \<in> (par_rel ns)\<^sup>*" "parent (ns ! n) = None"
  shows "q = n"
  using assms(1)
proof (cases rule: converse_rtranclE)
  case base then show ?thesis by simp
next
  case (step y)
  from par_relD[OF step(1)] assms(2) show ?thesis by simp
qed

lemma anc_height_le:
  assumes p: "ptrs_ok ns" and h: "heights_ok ns" and a: "(i, q) \<in> (par_rel ns)\<^sup>*"
  shows "height (ns ! i) \<le> height (ns ! q)"
proof -
  from a have "i = q \<or> (i, q) \<in> (par_rel ns)\<^sup>+" by (auto simp: rtrancl_eq_or_trancl)
  then show ?thesis
  proof
    assume "i = q" then show ?thesis by simp
  next
    assume "(i, q) \<in> (par_rel ns)\<^sup>+"
    from anc_height[OF p h this] show ?thesis by simp
  qed
qed

lemma rehash_up:
  assumes "ptrs_ok ns" "sib_ok ns" "kids_ok ns" "heights_ok ns" "\<forall>i<length ns. height (ns ! i) \<le> H"
    and "l < length ns" "parent (ns ! l) = Some n" "right (ns ! l) = Some r"
    and "a = hash (ns ! l)" "b = hash (ns ! r)"
  shows "\<exists>ns'. rehash sha ns (Some n) a b True = Some (ns', None) \<and> same_shape ns ns' \<and>
           (\<forall>q. (n, q) \<notin> (par_rel ns)\<^sup>* \<longrightarrow> hash (ns' ! q) = hash (ns ! q)) \<and>
           (\<forall>l' p' r'. l' < length ns \<longrightarrow> parent (ns ! l') = Some p' \<longrightarrow> right (ns ! l') = Some r' \<longrightarrow>
                (n, p') \<in> (par_rel ns)\<^sup>* \<longrightarrow> hash (ns' ! p') = sha (hash (ns' ! l') @ hash (ns' ! r')))"
  using assms
proof (induction "nat (H - height (ns ! n))" arbitrary: ns n l r a b rule: less_induct)
  case less
  note p = less.prems(1) and s = less.prems(2) and k = less.prems(3) and h = less.prems(4)
    and bnd = less.prems(5) and l = less.prems(6,7,8) and ab = less.prems(9,10)
  let ?R = "par_rel ns"
  define ns1 where "ns1 = ns[n := (ns ! n)\<lparr>hash := sha (a @ b)\<rparr>]"
  have n: "n < length ns" using ptrs_okD(3)[OF p l(1,2)] .
  from sib_okD(2)[OF s p l(1) l(3)] have r: "r < length ns" "left (ns ! r) = Some l" "parent (ns ! r) = Some n"
    using l(2) by simp_all
  have hl: "height (ns ! l) < height (ns ! n)" using heights_okD(2)[OF h l(1,2)] .
  have hr: "height (ns ! r) < height (ns ! n)" using heights_okD(2)[OF h r(1,3)] .
  have ln: "l \<noteq> n" using hl by auto
  have rn: "r \<noteq> n" using hr by auto
  have sh: "same_shape ns ns1" unfolding ns1_def by (rule same_shape_sethash)
  note D = same_shapeD[OF sh]
  note I = same_shape_invs[OF sh]
  have h1: "hash (ns1 ! i) = (if i = n then sha (a @ b) else hash (ns ! i))" for i
    using n by (simp add: ns1_def nth_list_update_if)
  have own: "hash (ns1 ! n) = sha (hash (ns1 ! l) @ hash (ns1 ! r))"
    using ln rn ab by (simp add: h1)
  show ?case
  proof (cases "parent (ns ! n)")
    case None
    have "rehash sha ns (Some n) a b True = Some (ns1, None)"
      unfolding ns1_def using n None by (simp add: rehash_no_parent)
    moreover have "hash (ns1 ! q) = hash (ns ! q)" if "(n, q) \<notin> ?R\<^sup>*" for q
      using that by (auto simp: h1)
    moreover have "hash (ns1 ! p') = sha (hash (ns1 ! l') @ hash (ns1 ! r'))"
      if l': "l' < length ns" "parent (ns ! l') = Some p'" "right (ns ! l') = Some r'" "(n, p') \<in> ?R\<^sup>*"
      for l' p' r'
    proof -
      from anc_root[OF l'(4) None] have e: "p' = n" .
      from left_child_unique[OF s p k l(1,2,3) l'(1) l'(2)[unfolded e] l'(3)] own e show ?thesis by simp
    qed
    ultimately show ?thesis using sh by blast
  next
    case (Some pn)
    have pn: "pn < length ns" using ptrs_okD(3)[OF p n Some] .
    have hpn: "height (ns ! n) < height (ns ! pn)" using heights_okD(2)[OF h n Some] .
    have m: "nat (H - height (ns1 ! pn)) < nat (H - height (ns ! n))"
      using hpn bnd[rule_format, OF pn] by (simp add: D)
    have inv1: "ptrs_ok ns1" "sib_ok ns1" "kids_ok ns1" "heights_ok ns1" "\<forall>i<length ns1. height (ns1 ! i) \<le> H"
      using p s k h bnd by (simp_all add: I D)
    have below: "(pn, q) \<notin> ?R\<^sup>*" if "height (ns ! q) < height (ns ! pn)" for q
      using anc_height_le[OF p h, of pn q] that by auto
    have fin: ?thesis
      if call: "rehash sha ns (Some n) a b True = rehash sha ns1 (Some pn) a' b' True"
        and l2: "l2 < length ns1" "parent (ns1 ! l2) = Some pn" "right (ns1 ! l2) = Some r2"
        and ab2: "a' = hash (ns1 ! l2)" "b' = hash (ns1 ! r2)" for a' b' l2 r2
    proof -
      from less.hyps[OF m inv1 l2 ab2] obtain ns' where
        ns': "rehash sha ns1 (Some pn) a' b' True = Some (ns', None)" "same_shape ns1 ns'"
          "\<forall>q. (pn, q) \<notin> (par_rel ns1)\<^sup>* \<longrightarrow> hash (ns' ! q) = hash (ns1 ! q)"
          "\<forall>l' p' r'. l' < length ns1 \<longrightarrow> parent (ns1 ! l') = Some p' \<longrightarrow> right (ns1 ! l') = Some r' \<longrightarrow>
                (pn, p') \<in> (par_rel ns1)\<^sup>* \<longrightarrow> hash (ns' ! p') = sha (hash (ns' ! l') @ hash (ns' ! r'))"
        by blast
      have keep: "hash (ns' ! q) = hash (ns1 ! q)" if "(pn, q) \<notin> ?R\<^sup>*" for q
        using ns'(3) that by (simp add: I)
      have 3: "hash (ns' ! q) = hash (ns ! q)" if q: "(n, q) \<notin> ?R\<^sup>*" for q
      proof -
        have "q \<noteq> n" using q by auto
        moreover have "(pn, q) \<notin> ?R\<^sup>*"
        proof
          assume "(pn, q) \<in> ?R\<^sup>*"
          moreover have "(n, pn) \<in> ?R" using n Some by (simp add: par_rel_def)
          ultimately have "(n, q) \<in> ?R\<^sup>*" by (rule converse_rtrancl_into_rtrancl[rotated])
          with q show False by simp
        qed
        ultimately show ?thesis using keep by (simp add: h1)
      qed
      have 4: "hash (ns' ! p') = sha (hash (ns' ! l') @ hash (ns' ! r'))"
        if l': "l' < length ns" "parent (ns ! l') = Some p'" "right (ns ! l') = Some r'" "(n, p') \<in> ?R\<^sup>*"
        for l' p' r'
      proof -
        from anc_step[OF l'(4) Some] show ?thesis
        proof
          assume e: "p' = n"
          from left_child_unique[OF s p k l(1,2,3) l'(1) l'(2)[unfolded e] l'(3)]
          have ee: "l' = l" "r' = r" by simp_all
          have "hash (ns' ! n) = hash (ns1 ! n)" "hash (ns' ! l) = hash (ns1 ! l)" "hash (ns' ! r) = hash (ns1 ! r)"
            using keep[OF below] hpn hl hr by simp_all
          with own e ee show ?thesis by simp
        next
          assume "(pn, p') \<in> ?R\<^sup>*"
          with ns'(4)[rule_format, of l' p' r'] l'(1,2,3) show ?thesis by (simp add: D I)
        qed
      qed
      from 3 4 ns'(1) same_shape_trans[OF sh ns'(2)] call show ?thesis by simp
    qed
    show ?thesis
    proof (cases "left (ns ! n)")
      case (Some ln')
      from sib_okD(1)[OF s p n Some] have ll: "ln' < length ns" "right (ns ! ln') = Some n" "parent (ns ! ln') = parent (ns ! n)"
        by simp_all
      show ?thesis
      proof (rule fin)
        show "rehash sha ns (Some n) a b True = rehash sha ns1 (Some pn) (hash (ns1 ! ln')) (hash (ns1 ! n)) True"
          using n \<open>parent (ns ! n) = Some pn\<close> Some ll(1) ns1_def by (rule rehash_right_child)
        show "ln' < length ns1" using ll(1) by (simp add: D)
        show "parent (ns1 ! ln') = Some pn" using ll(3) \<open>parent (ns ! n) = Some pn\<close> by (simp add: D)
        show "right (ns1 ! ln') = Some n" using ll(2) by (simp add: D)
      qed simp_all
    next
      case None
      with sib_okD(4)[OF s p n] \<open>parent (ns ! n) = Some pn\<close> obtain rn' where rn': "right (ns ! n) = Some rn'"
        by auto
      from sib_okD(2)[OF s p n rn'] have rr: "rn' < length ns" by simp
      show ?thesis
      proof (rule fin)
        show "rehash sha ns (Some n) a b True = rehash sha ns1 (Some pn) (hash (ns1 ! n)) (hash (ns1 ! rn')) True"
          using n \<open>parent (ns ! n) = Some pn\<close> None rn' rr ns1_def by (rule rehash_left_child)
        show "n < length ns1" using n by (simp add: D)
        show "parent (ns1 ! n) = Some pn" using \<open>parent (ns ! n) = Some pn\<close> by (simp add: D)
        show "right (ns1 ! n) = Some rn'" using rn' by (simp add: D)
      qed simp_all
    qed
  qed
qed

text \<open>Consistency of all hashes is restored when it held away from the rehashed chain.\<close>

lemma rehash_up_ok:
  assumes "ptrs_ok ns" "sib_ok ns" "kids_ok ns" "heights_ok ns" "\<forall>i<length ns. height (ns ! i) \<le> H"
    and "l < length ns" "parent (ns ! l) = Some n" "right (ns ! l) = Some r"
    and "a = hash (ns ! l)" "b = hash (ns ! r)"
    and ok: "hashes_ok_except sha ns {q. (n, q) \<in> (par_rel ns)\<^sup>*}"
  shows "\<exists>ns'. rehash sha ns (Some n) a b True = Some (ns', None) \<and> same_shape ns ns' \<and>
           hashes_ok_except sha ns' {} \<and>
           (\<forall>q. (n, q) \<notin> (par_rel ns)\<^sup>* \<longrightarrow> hash (ns' ! q) = hash (ns ! q))"
proof -
  let ?R = "par_rel ns"
  from rehash_up[OF assms(1-10)] obtain ns' where
    ns': "rehash sha ns (Some n) a b True = Some (ns', None)" "same_shape ns ns'"
      "\<And>q. (n, q) \<notin> ?R\<^sup>* \<Longrightarrow> hash (ns' ! q) = hash (ns ! q)"
      "\<And>l' p' r'. l' < length ns \<Longrightarrow> parent (ns ! l') = Some p' \<Longrightarrow> right (ns ! l') = Some r' \<Longrightarrow>
                (n, p') \<in> ?R\<^sup>* \<Longrightarrow> hash (ns' ! p') = sha (hash (ns' ! l') @ hash (ns' ! r'))"
    by blast
  note D = same_shapeD[OF ns'(2)]
  have "hashes_ok_except sha ns' {}"
    unfolding hashes_ok_except_def D
  proof (intro allI impI)
    fix l' p' r' assume a1: "l' < length ns" and
      a2: "parent (ns ! l') = Some p' \<and> right (ns ! l') = Some r' \<and> p' \<notin> {}"
    show "hash (ns' ! p') = sha (hash (ns' ! l') @ hash (ns' ! r'))"
    proof (cases "(n, p') \<in> ?R\<^sup>*")
      case True
      with ns'(4)[OF a1] a2 show ?thesis by blast
    next
      case False
      have "(n, l') \<notin> ?R\<^sup>*"
      proof
        assume "(n, l') \<in> ?R\<^sup>*"
        moreover have "(l', p') \<in> ?R" using a1 a2 by (simp add: par_rel_def)
        ultimately have "(n, p') \<in> ?R\<^sup>*" by (rule rtrancl_into_rtrancl)
        with False show False by simp
      qed
      moreover have "(n, r') \<notin> ?R\<^sup>*"
      proof
        assume "(n, r') \<in> ?R\<^sup>*"
        moreover have "(r', p') \<in> ?R" using sib_okD(2)[OF assms(2,1) a1, of r'] a2 by (simp add: par_rel_def)
        ultimately have "(n, p') \<in> ?R\<^sup>*" by (rule rtrancl_into_rtrancl)
        with False show False by simp
      qed
      moreover have "hash (ns ! p') = sha (hash (ns ! l') @ hash (ns ! r'))"
        using ok[unfolded hashes_ok_except_def, rule_format, OF a1, of p' r'] a2 False by simp
      ultimately show ?thesis using ns'(3) False by simp
    qed
  qed
  with ns' show ?thesis by blast
qed

lemma well_formedD:
  assumes "well_formed t"
  shows "ptrs_ok (nodes t)" "sib_ok (nodes t)" "kids_ok (nodes t)" "heights_ok (nodes t)"
    "\<forall>i<length (nodes t). height (nodes t ! i) \<le> tree_height t" "0 \<le> tree_height t"
    "root_ok (nodes t) (root t)" "leaves_ok (nodes t) (leaves t)" "spine_ok (nodes t) (leaves t)"
  using assms unfolding well_formed_def by blast+

lemma par_rel_snoc_leaf: "par_rel (ns @ [leaf_node lf]) = par_rel ns"
proof -
  have "(i < length ns + 1 \<and> parent ((ns @ [leaf_node lf]) ! i) = Some p) = (i < length ns \<and> parent (ns ! i) = Some p)" for i p
    by (cases "i < length ns") (auto simp: nth_append leaf_node_def less_Suc_eq)
  then show ?thesis by (simp add: par_rel_def)
qed

lemma ptrs_ok_snoc_leaf:
  assumes "ptrs_ok ns" shows "ptrs_ok (ns @ [leaf_node lf])"
  unfolding ptrs_ok_def
proof (intro allI impI)
  fix i assume "i < length (ns @ [leaf_node lf])"
  then have "i < length ns \<or> i = length ns" by auto
  then show "(\<forall>j. left ((ns @ [leaf_node lf]) ! i) = Some j \<longrightarrow> j < length (ns @ [leaf_node lf])) \<and>
         (\<forall>j. right ((ns @ [leaf_node lf]) ! i) = Some j \<longrightarrow> j < length (ns @ [leaf_node lf])) \<and>
         (\<forall>j. parent ((ns @ [leaf_node lf]) ! i) = Some j \<longrightarrow> j < length (ns @ [leaf_node lf]))"
  proof
    assume i: "i < length ns"
    from ptrs_okD[OF assms i] i show ?thesis by (simp add: nth_append less_SucI)
  next
    assume "i = length ns"
    then show ?thesis by (simp add: leaf_node_def)
  qed
qed

text \<open>The candidate found by the climb from the last leaf.\<close>

lemma Add_climb_cand:
  assumes w: "well_formed t" and ne: "leaves t \<noteq> []"
  shows "\<exists>c. Add_climb (nodes t @ [leaf_node lf]) (last (leaves t)) = Some (Inr c) \<and>
             cand_ok (nodes t) c \<and> (last (leaves t), c) \<in> (par_rel (nodes t))\<^sup>*"
proof -
  let ?ns = "nodes t" and ?n1 = "nodes t @ [leaf_node lf]"
  note W = well_formedD[OF w]
  have ll: "last (leaves t) < length ?ns" using W(8) ne unfolding leaves_ok_def by simp
  have b1: "\<forall>i<length ?n1. height (?n1 ! i) \<le> tree_height t"
  proof (intro allI impI)
    fix i assume "i < length ?n1"
    then have "i < length ?ns \<or> i = length ?ns" by auto
    then show "height (?n1 ! i) \<le> tree_height t"
      using W(5,6) by (auto simp: nth_append leaf_node_def)
  qed
  from Add_climb_spec[OF ptrs_ok_snoc_leaf[OF W(1)] b1, of "last (leaves t)"] ll
  obtain c where c: "Add_climb ?n1 (last (leaves t)) = Some (Inr c)" "(last (leaves t), c) \<in> (par_rel ?n1)\<^sup>*"
    "c < length ?n1" "\<forall>p. parent (?n1 ! c) = Some p \<longrightarrow> height (?n1 ! p) \<noteq> height (?n1 ! c) + 1"
    by auto
  from c(2) have anc: "(last (leaves t), c) \<in> (par_rel ?ns)\<^sup>*" by (simp add: par_rel_snoc_leaf)
  from anc_in_range[OF W(1) anc ll] have cl: "c < length ?ns" .
  have rc: "right (?ns ! c) = None" using W(9) ne anc unfolding spine_ok_def by blast
  have "height (?ns ! p) \<noteq> height (?ns ! c) + 1" if pp: "parent (?ns ! c) = Some p" for p
  proof -
    from ptrs_okD(3)[OF W(1) cl pp] have "p < length ?ns" .
    with c(4)[rule_format, of p] pp cl show ?thesis by (simp add: nth_append)
  qed
  with cl rc have "cand_ok ?ns c" by (simp add: cand_ok_def)
  with c(1) anc show ?thesis by blast
qed

lemma Add_unfold:
  assumes w: "well_formed t" and ne: "leaves t \<noteq> []"
    and c: "Add_climb (nodes t @ [leaf_node lf]) (last (leaves t)) = Some (Inr c)" "cand_ok (nodes t) c"
  shows "Add sha t lf =
     (if paused t then Some (Add_shape t lf c, None)
      else (case rehash sha (linked (nodes t) c lf) (Some (Suc (length (nodes t)))) (hash (nodes t ! c)) lf True of
              None \<Rightarrow> None
            | Some (ns', e) \<Rightarrow> Some ((Add_shape t lf c)\<lparr>nodes := ns'\<rparr>, e)))"
proof -
  let ?ns = "nodes t"
  note W = well_formedD[OF w]
  have cl: "c < length ?ns" using c(2) by (simp add: cand_ok_def)
  have "root t \<noteq> None" using W(7,8) ne unfolding root_ok_def leaves_ok_def by (cases "root t") auto
  then obtain r0 where r: "root t = Some r0" by blast
  have l2: "\<not> length (leaves t @ [length ?ns]) < 2" using ne by (cases "leaves t") auto
  have la: "(leaves t @ [length ?ns]) ! (length (leaves t @ [length ?ns]) - 2) = last (leaves t)"
    using ne by (simp add: nth_append last_conv_nth)
  have x: "\<forall>x. left (?ns ! c) = Some x \<longrightarrow> x < length ?ns \<and> x \<noteq> c"
    using cand_sibling(1,2)[OF W(1,2) c(2)] by blast
  note lk = Add_link_linked[OF cl x, of lf, unfolded leaf_node_def]
  note cc = c(1)[unfolded leaf_node_def]
  have pb: "parent (linked ?ns c lf ! Suc (length ?ns)) = parent (?ns ! c)"
    and hb: "height (linked ?ns c lf ! Suc (length ?ns)) = height (?ns ! c) + 1"
    and hc: "hash (linked ?ns c lf ! c) = hash (?ns ! c)"
    using cl by (simp_all add: linked_b linked_c)
  show ?thesis
  proof (cases "paused t")
    case True
    then show ?thesis
      unfolding Add_def Let_def
      using r l2 la apply (simp add: cc lk pb hb hc Add_shape_def max_def)
      done
  next
    case False
    show ?thesis
    proof (cases "rehash sha (linked (nodes t) c lf) (Some (Suc (length (nodes t)))) (hash (nodes t ! c)) lf True")
      case None
      then show ?thesis
        unfolding Add_def Let_def
        using r l2 la False by (simp add: cc lk pb hb hc Add_shape_def max_def)
    next
      case (Some res)
      obtain ns' e where res: "res = (ns', e)" by (cases res)
      show ?thesis
        unfolding Add_def Let_def
        using r l2 la False Some[unfolded res] by (simp add: cc lk pb hb hc Add_shape_def max_def)
    qed
  qed
qed

lemma well_formed_first:
  "well_formed (t\<lparr>nodes := [leaf_node lf], leaves := [0], root := Some 0\<rparr>)" if "0 \<le> tree_height t"
proof -
  have q0: "(0, q) \<in> (par_rel [leaf_node lf])\<^sup>* \<Longrightarrow> q = 0" for q
    by (erule converse_rtranclE) (simp_all add: par_rel_def leaf_node_def)
  have "spine_ok [leaf_node lf] [0]"
    unfolding spine_ok_def
  proof (intro impI allI)
    fix q assume "(last [0], q) \<in> (par_rel [leaf_node lf])\<^sup>*"
    then have "q = 0" using q0 by simp
    then show "right ([leaf_node lf] ! q) = None" by (simp add: leaf_node_def)
  qed
  then show ?thesis using that
    by (simp add: well_formed_def ptrs_ok_def sib_ok_def kids_ok_def heights_ok_def root_ok_def
        leaves_ok_def leaf_node_def)
qed

lemma well_formed_Add_shape:
  assumes w: "well_formed t" and ne: "leaves t \<noteq> []"
    and c: "cand_ok (nodes t) c" "(last (leaves t), c) \<in> (par_rel (nodes t))\<^sup>*"
  shows "well_formed (Add_shape t lf c)"
proof -
  let ?ns = "nodes t"
  note W = well_formedD[OF w]
  have cl: "c < length ?ns" using c(1) by (simp add: cand_ok_def)
  have "root t \<noteq> None" using W(7,8) ne unfolding root_ok_def leaves_ok_def by (cases "root t") auto
  then obtain r0 where r: "root t = Some r0" by blast
  have pb: "parent (linked ?ns c lf ! Suc (length ?ns)) = parent (?ns ! c)"
    and hb: "height (linked ?ns c lf ! Suc (length ?ns)) = height (?ns ! c) + 1"
    using cl by (simp_all add: linked_b)
  have "root_ok (linked ?ns c lf) (if parent (?ns ! c) = None then Some (Suc (length ?ns)) else root t)"
    unfolding r by (rule root_ok_linked[OF W(1,2) c(1) W(7)[unfolded r], of lf, unfolded pb])
  moreover have "\<forall>i<length (linked ?ns c lf). height (linked ?ns c lf ! i) \<le> max (tree_height t) (height (?ns ! c) + 1)"
    using bound_linked[OF W(5) cl _ W(6), of _ lf] by (simp add: length_linked hb)
  moreover have "0 \<le> max (tree_height t) (height (?ns ! c) + 1)" using W(6) by simp
  ultimately show ?thesis
    unfolding well_formed_def Add_shape_def
    using ptrs_ok_linked[OF W(1) cl, of lf] sib_ok_linked[OF W(1,2) c(1), of lf]
      kids_ok_linked[OF W(1,2,3) c(1), of lf] heights_ok_linked[OF W(1,2,4) c(1), of lf]
      leaves_ok_linked[OF W(8) cl ne c(2), of lf] spine_ok_linked[OF W(1,2,4) c(1) W(9) ne c(2), of lf]
    by simp
qed

lemma well_formed_same_shape:
  assumes "well_formed t" "same_shape (nodes t) ns'"
  shows "well_formed (t\<lparr>nodes := ns'\<rparr>)"
proof -
  note D = same_shapeD[OF assms(2)] and I = same_shape_invs[OF assms(2)]
  show ?thesis using assms(1) unfolding well_formed_def by (simp add: D I)
qed

lemma Add_empty:
  assumes w: "well_formed t" and e: "leaves t = []"
  shows "Add sha t lf = Some (t\<lparr>nodes := [leaf_node lf], leaves := [0], root := Some 0\<rparr>, None)"
proof -
  note W = well_formedD[OF w]
  from W(8) e have n: "nodes t = []" by (simp add: leaves_ok_def)
  with W(7) have r: "root t = None" unfolding root_ok_def by (cases "root t") simp_all
  show ?thesis unfolding Add_def Let_def by (simp add: n r e leaf_node_def)
qed

lemma hashes_ok_linked:
  assumes p: "ptrs_ok ns" and s: "sib_ok ns" and co: "cand_ok ns c"
    and ok: "hashes_ok_except sha ns {}"
  shows "hashes_ok_except sha (linked ns c lf) {q. (Suc (length ns), q) \<in> (par_rel (linked ns c lf))\<^sup>*}"
  unfolding hashes_ok_except_def length_linked
proof (intro allI impI)
  fix l p' r
  let ?n = "linked ns c lf"
  assume l: "l < length ns + 2"
    and asm: "parent (?n ! l) = Some p' \<and> right (?n ! l) = Some r \<and> p' \<notin> {q. (Suc (length ns), q) \<in> (par_rel ?n)\<^sup>*}"
  have c: "c < length ns" "right (ns ! c) = None" using co by (simp_all add: cand_ok_def)
  note cs = cand_sibling[OF p s co]
  have nb: "p' \<noteq> Suc (length ns)" using asm by auto
  have pb: "parent (?n ! Suc (length ns)) = parent (ns ! c)" using c by (simp add: linked_b)
  have npp: "parent (ns ! c) \<noteq> Some p'"
  proof
    assume "parent (ns ! c) = Some p'"
    with pb have "(Suc (length ns), p') \<in> par_rel ?n" by (simp add: par_rel_def length_linked)
    with asm show False by blast
  qed
  from l show "hash (?n ! p') = sha (hash (?n ! l) @ hash (?n ! r))"
  proof (cases rule: linked_cases[where c = c])
    case a with asm c show ?thesis by (simp add: linked_a)
  next
    case b with asm c show ?thesis by (simp add: linked_b)
  next
    case c with asm nb show ?thesis by (simp add: linked_c)
  next
    case x
    with asm c cs(4)[OF x(1)] npp show ?thesis by (simp add: linked_x)
  next
    case other
    then have e: "?n ! l = ns ! l" using c by (simp add: linked_other)
    with asm have pl: "parent (ns ! l) = Some p'" "right (ns ! l) = Some r" by simp_all
    from ptrs_okD(3)[OF p other(1) pl(1)] have pp: "p' < length ns" .
    from ptrs_okD(2)[OF p other(1) pl(2)] have rr: "r < length ns" .
    from ok[unfolded hashes_ok_except_def, rule_format, OF other(1), of p' r] pl
    have "hash (ns ! p') = sha (hash (ns ! l) @ hash (ns ! r))" by simp
    with linked_hash_old[OF c(1)] pp rr other(1) show ?thesis by simp
  qed
qed

lemma Add_well_formed:
  assumes w: "well_formed t"
  shows "\<exists>t'. Add sha t lf = Some (t', None) \<and> well_formed t' \<and> paused t' = paused t \<and>
           leaves t' = leaves t @ [length (nodes t)] \<and>
           length (nodes t') = (if leaves t = [] then 1 else length (nodes t) + 2) \<and>
           hash (nodes t' ! length (nodes t)) = lf \<and>
           (\<forall>i<length (nodes t). height (nodes t ! i) = 0 \<longrightarrow> hash (nodes t' ! i) = hash (nodes t ! i)) \<and>
           (\<not> paused t \<longrightarrow> hashes_ok_except sha (nodes t) {} \<longrightarrow> hashes_ok_except sha (nodes t') {})"
proof (cases "leaves t = []")
  case True
  note W = well_formedD[OF w]
  from W(8) True have n: "nodes t = []" by (simp add: leaves_ok_def)
  have "hashes_ok_except sha [leaf_node lf] {}" by (simp add: hashes_ok_except_def leaf_node_def)
  with Add_empty[OF w True, of sha lf] well_formed_first[OF W(6), of lf] True n show ?thesis
    by (simp add: leaf_node_def)
next
  case False
  let ?ns = "nodes t"
  note W = well_formedD[OF w]
  from Add_climb_cand[OF w False, of lf] obtain c where
    c: "Add_climb (?ns @ [leaf_node lf]) (last (leaves t)) = Some (Inr c)" "cand_ok ?ns c"
       "(last (leaves t), c) \<in> (par_rel ?ns)\<^sup>*" by blast
  have cl: "c < length ?ns" using c(2) by (simp add: cand_ok_def)
  note U = Add_unfold[OF w False c(1,2), of sha]
  note WS = well_formed_Add_shape[OF w False c(2,3), of lf]
  let ?n = "linked ?ns c lf"
  have nS: "nodes (Add_shape t lf c) = ?n" "leaves (Add_shape t lf c) = leaves t @ [length ?ns]"
    "paused (Add_shape t lf c) = paused t"
    by (simp_all add: Add_shape_def)
  show ?thesis
  proof (cases "paused t")
    case True
    with U have "Add sha t lf = Some (Add_shape t lf c, None)" by simp
    with WS nS True False cl linked_hash_old[OF cl, of _ lf] show ?thesis
      by (simp add: length_linked linked_a)
  next
    case np: False
    note WL = well_formedD[OF WS, unfolded nS]
    have bnd: "\<forall>i<length ?n. height (?n ! i) \<le> tree_height (Add_shape t lf c)" using WL(5) .
    have lc: "c < length ?n" "parent (?n ! c) = Some (Suc (length ?ns))" "right (?n ! c) = Some (length ?ns)"
      "hash (?ns ! c) = hash (?n ! c)" "lf = hash (?n ! length ?ns)"
      using cl by (simp_all add: length_linked linked_c linked_a)
    from rehash_up[OF WL(1,2,3,4) bnd lc, of sha] obtain ns' where
      ns': "rehash sha ?n (Some (Suc (length ?ns))) (hash (?ns ! c)) lf True = Some (ns', None)"
        "same_shape ?n ns'"
        "\<And>q. (Suc (length ?ns), q) \<notin> (par_rel ?n)\<^sup>* \<Longrightarrow> hash (ns' ! q) = hash (?n ! q)"
      by blast
    have A: "Add sha t lf = Some ((Add_shape t lf c)\<lparr>nodes := ns'\<rparr>, None)"
      using U np ns'(1) by simp
    have wf': "well_formed ((Add_shape t lf c)\<lparr>nodes := ns'\<rparr>)"
      using well_formed_same_shape[OF WS] ns'(2) nS(1) by simp
    have hb: "height (?n ! Suc (length ?ns)) = height (?ns ! c) + 1" using cl by (simp add: linked_b)
    have low: "(Suc (length ?ns), q) \<notin> (par_rel ?n)\<^sup>*" if "q < length ?n" "height (?n ! q) = 0" for q
    proof
      assume "(Suc (length ?ns), q) \<in> (par_rel ?n)\<^sup>*"
      from anc_height_le[OF WL(1,4) this] hb that(2) heights_okD(1)[OF W(4) cl] show False by simp
    qed
    have h1: "hash (ns' ! length ?ns) = lf"
      using ns'(3)[OF low, of "length ?ns"] cl by (simp add: length_linked linked_a)
    have h2: "hash (ns' ! i) = hash (?ns ! i)" if "i < length ?ns" "height (?ns ! i) = 0" for i
      using ns'(3)[OF low, of i] that linked_height_old[OF cl that(1), of lf] linked_hash_old[OF cl that(1), of lf]
      by (simp add: length_linked)
    have h3: "hashes_ok_except sha ns' {}" if ok: "hashes_ok_except sha ?ns {}"
    proof -
      from rehash_up_ok[OF WL(1,2,3,4) bnd lc hashes_ok_linked[OF W(1,2) c(2) ok]] ns'(1)
      show ?thesis by auto
    qed
    from A wf' h1 h2 h3 nS same_shapeD(1)[OF ns'(2)] False show ?thesis
      by (simp add: length_linked)
  qed
qed

lemma Path_triplet_ok:
  assumes p: "ptrs_ok ns" and s: "sib_ok ns" and i: "i < length ns" and pi: "parent (ns ! i) = Some q"
  shows "Path_triplet ns (ns ! i) = Inr (oriented_triplet ns i)"
proof -
  from ptrs_okD(3)[OF p i pi] have q: "q < length ns" .
  show ?thesis
  proof (cases "left (ns ! i)")
    case (Some l)
    from ptrs_okD(1)[OF p i Some] q pi Some show ?thesis
      by (simp add: Path_triplet_def oriented_triplet_def deref_def)
  next
    case None
    with sib_okD(4)[OF s p i] pi obtain r where r: "right (ns ! i) = Some r" by auto
    from ptrs_okD(2)[OF p i r] q pi None r show ?thesis
      by (simp add: Path_triplet_def oriented_triplet_def deref_def)
  qed
qed

lemma Path_loop_spec:
  "well_formed t \<Longrightarrow> node < length (nodes t) \<Longrightarrow> 0 \<le> level \<Longrightarrow> level \<le> height (nodes t ! node) \<Longrightarrow>
     \<exists>p. Path_loop t node level path = Inr (path @ p) \<and>
         parent (nodes t ! nth_parent (nodes t) node (length p)) = None \<and>
         (\<forall>k<length p. nth_parent (nodes t) node k < length (nodes t) \<and>
                       parent (nodes t ! nth_parent (nodes t) node k) \<noteq> None \<and>
                       p ! k = oriented_triplet (nodes t) (nth_parent (nodes t) node k))"
proof (induction t node level path rule: Path_loop.induct)
  case (1 t node level path)
  let ?ns = "nodes t"
  note w = "1.prems"(1)
  note W = well_formedD[OF w]
  note n = "1.prems"(2)
  have d: "deref ?ns (Some node) = Some (?ns ! node)" using n by (simp add: deref_def)
  show ?case
  proof (cases "parent (?ns ! node)")
    case None
    then have "Path_loop t node level path = Inr path" using d by simp
    with None show ?thesis by simp
  next
    case (Some q)
    from ptrs_okD(3)[OF W(1) n Some] have q: "q < length ?ns" .
    note tr = Path_triplet_ok[OF W(1,2) n Some]
    have hq: "height (?ns ! node) < height (?ns ! q)" using heights_okD(2)[OF W(4) n Some] .
    have lv: "\<not> (level < 0 \<or> tree_height t \<le> level)"
      using "1.prems"(3,4) hq W(5)[rule_format, OF q] by simp
    have step: "Path_loop t node level path = Path_loop t q (level + 1) (path @ [oriented_triplet ?ns node])"
      using d Some tr lv by (subst Path_loop.simps) simp
    from "1.IH"[OF d Some tr lv w q] "1.prems"(3,4) hq
    obtain p where p: "Path_loop t q (level + 1) ((path @ [oriented_triplet ?ns node])) = Inr ((path @ [oriented_triplet ?ns node]) @ p)"
      "parent (?ns ! nth_parent ?ns q (length p)) = None"
      "\<And>k. k < length p \<Longrightarrow> nth_parent ?ns q k < length ?ns \<and> parent (?ns ! nth_parent ?ns q k) \<noteq> None \<and>
                       p ! k = oriented_triplet ?ns (nth_parent ?ns q k)"
      by auto
    let ?p = "oriented_triplet ?ns node # p"
    have "Path_loop t node level path = Inr (path @ ?p)" using step p(1) by simp
    moreover have "parent (?ns ! nth_parent ?ns node (length ?p)) = None" using p(2) Some by simp
    moreover have "nth_parent ?ns node k < length ?ns \<and> parent (?ns ! nth_parent ?ns node k) \<noteq> None \<and>
                       ?p ! k = oriented_triplet ?ns (nth_parent ?ns node k)" if "k < length ?p" for k
    proof (cases k)
      case 0 then show ?thesis using n Some by simp
    next
      case (Suc j)
      with that p(3)[of j] Some show ?thesis by simp
    qed
    ultimately show ?thesis by blast
  qed
qed

lemma oriented_triplet_valid:
  assumes p: "ptrs_ok ns" and s: "sib_ok ns" and ok: "hashes_ok_except sha ns {}"
    and i: "i < length ns" and pi: "parent (ns ! i) = Some q"
  shows "Parent (oriented_triplet ns i) = sha (Left (oriented_triplet ns i) @ Right (oriented_triplet ns i))"
    and "Parent (oriented_triplet ns i) = hash (ns ! q)"
    and "Left (oriented_triplet ns i) = hash (ns ! i) \<or> Right (oriented_triplet ns i) = hash (ns ! i)"
proof -
  note H = ok[unfolded hashes_ok_except_def, rule_format]
  show "Parent (oriented_triplet ns i) = hash (ns ! q)"
    using pi by (simp add: oriented_triplet_def split: option.split)
  show "Left (oriented_triplet ns i) = hash (ns ! i) \<or> Right (oriented_triplet ns i) = hash (ns ! i)"
    by (simp add: oriented_triplet_def split: option.split)
  show "Parent (oriented_triplet ns i) = sha (Left (oriented_triplet ns i) @ Right (oriented_triplet ns i))"
  proof (cases "left (ns ! i)")
    case (Some l)
    from sib_okD(1)[OF s p i Some] pi have l: "l < length ns" "right (ns ! l) = Some i" "parent (ns ! l) = Some q"
      by simp_all
    from H[OF l(1), of q i] l Some pi show ?thesis by (simp add: oriented_triplet_def)
  next
    case None
    with sib_okD(4)[OF s p i] pi obtain r where r: "right (ns ! i) = Some r" by auto
    from H[OF i, of q r] pi r None show ?thesis by (simp add: oriented_triplet_def)
  qed
qed

lemma triplets_valid:
  assumes p: "ptrs_ok ns" and s: "sib_ok ns" and ok: "hashes_ok_except sha ns {}"
    and rt: "root_ok ns (Some r)"
  shows "node < length ns \<Longrightarrow> parent (ns ! nth_parent ns node (length p)) = None \<Longrightarrow>
     (\<forall>k<length p. nth_parent ns node k < length ns \<and> parent (ns ! nth_parent ns node k) \<noteq> None \<and>
                   p ! k = oriented_triplet ns (nth_parent ns node k)) \<Longrightarrow>
     Path_Validate sha p = None \<and> (p \<noteq> [] \<longrightarrow> Parent (last p) = hash (ns ! r))"
proof (induction p arbitrary: node)
  case Nil
  then show ?case by simp
next
  case (Cons h p)
  from Cons.prems(3)[rule_format, of 0] obtain q where q: "parent (ns ! node) = Some q"
    and h: "h = oriented_triplet ns node" by auto
  from ptrs_okD(3)[OF p Cons.prems(1) q] have ql: "q < length ns" .
  note V = oriented_triplet_valid[OF p s ok Cons.prems(1) q, folded h]
  have 2: "parent (ns ! nth_parent ns q (length p)) = None" using Cons.prems(2) q by simp
  have 3: "\<forall>k<length p. nth_parent ns q k < length ns \<and> parent (ns ! nth_parent ns q k) \<noteq> None \<and>
                   p ! k = oriented_triplet ns (nth_parent ns q k)"
  proof (intro allI impI)
    fix k assume "k < length p"
    with Cons.prems(3)[rule_format, of "Suc k"] q
    show "nth_parent ns q k < length ns \<and> parent (ns ! nth_parent ns q k) \<noteq> None \<and>
                   p ! k = oriented_triplet ns (nth_parent ns q k)" by simp
  qed
  note IH = Cons.IH[OF ql 2 3]
  have mv: "MerkleNodeHashes_Validate sha h = None"
    using V(1) by (simp add: MerkleNodeHashes_Validate_def)
  show ?case
  proof (cases p)
    case Nil
    with 2 have "parent (ns ! q) = None" by simp
    with root_okD(2)[OF rt ql] have "q = r" by simp
    with Nil mv V(2) show ?thesis by simp
  next
    case (Cons up p')
    from 3[rule_format, of 0] Cons obtain q' where q': "parent (ns ! q) = Some q'"
      and up: "up = oriented_triplet ns q" by auto
    from oriented_triplet_valid(3)[OF p s ok ql q', folded up] V(2)
    have "\<not> (Parent h \<noteq> Left up \<and> Parent h \<noteq> Right up)" by auto
    with IH Cons mv show ?thesis by simp
  qed
qed

lemma Path_spec:
  assumes w: "well_formed t" and l2: "2 \<le> length (leaves t)"
    and ix: "0 \<le> index" "index < int (length (leaves t))"
  shows "\<exists>p. Path t index = Inr p \<and> p \<noteq> [] \<and>
     parent (nodes t ! nth_parent (nodes t) (leaves t ! nat index) (length p)) = None \<and>
     (\<forall>k<length p. nth_parent (nodes t) (leaves t ! nat index) k < length (nodes t) \<and>
                   parent (nodes t ! nth_parent (nodes t) (leaves t ! nat index) k) \<noteq> None \<and>
                   p ! k = oriented_triplet (nodes t) (nth_parent (nodes t) (leaves t ! nat index) k))"
proof -
  let ?l = "leaves t ! nat index"
  note W = well_formedD[OF w]
  have mem: "?l \<in> set (leaves t)" using ix by simp
  with W(8) l2 have l: "?l < length (nodes t)" "height (nodes t ! ?l) = 0" "parent (nodes t ! ?l) \<noteq> None"
    unfolding leaves_ok_def by blast+
  from Path_loop_spec[OF w l(1), of 0 "[]"] l(2) obtain p where
    p: "Path_loop t ?l 0 [] = Inr p" "parent (nodes t ! nth_parent (nodes t) ?l (length p)) = None"
      "\<forall>k<length p. nth_parent (nodes t) ?l k < length (nodes t) \<and>
                   parent (nodes t ! nth_parent (nodes t) ?l k) \<noteq> None \<and>
                   p ! k = oriented_triplet (nodes t) (nth_parent (nodes t) ?l k)"
    by auto
  have "p \<noteq> []" using p(2) l(3) by auto
  moreover have "Path t index = Inr p" using p(1) l2 ix W(6) by (simp add: Path_def)
  ultimately show ?thesis using p(2,3) by blast
qed

lemma nth_parent_anc:
  assumes p: "ptrs_ok ns"
  shows "i < length ns \<Longrightarrow> (i, nth_parent ns i k) \<in> (par_rel ns)\<^sup>*"
proof (induction k arbitrary: i)
  case 0
  then show ?case by simp
next
  case (Suc k)
  show ?case
  proof (cases "parent (ns ! i)")
    case None
    then show ?thesis by simp
  next
    case (Some q)
    from ptrs_okD(3)[OF p Suc.prems Some] have "q < length ns" .
    from Suc.IH[OF this] have "(q, nth_parent ns q k) \<in> (par_rel ns)\<^sup>*" .
    moreover have "(i, q) \<in> par_rel ns" using Suc.prems Some by (simp add: par_rel_def)
    ultimately have "(i, nth_parent ns q k) \<in> (par_rel ns)\<^sup>*" by (rule converse_rtrancl_into_rtrancl[rotated])
    with Some show ?thesis by simp
  qed
qed

lemma nth_parent_same_shape:
  assumes "same_shape ns ns'"
  shows "nth_parent ns' i k = nth_parent ns i k"
  by (induction k arbitrary: i) (simp_all add: same_shapeD[OF assms] split: option.split)

lemma Update_out_of_range:
  "index < 0 \<or> int (length (leaves t)) \<le> index \<Longrightarrow> Update sha t index hsh = Some (t, Some IndexOutOfRange)"
  by (simp add: Update_def)

lemma Update_paused:
  assumes "well_formed t" "0 \<le> index" "index < int (length (leaves t))" "paused t"
  shows "Update sha t index hsh =
           Some (t\<lparr>nodes := (nodes t)[leaves t ! nat index := (nodes t ! (leaves t ! nat index))\<lparr>hash := hsh\<rparr>]\<rparr>, None)"
proof -
  note W = well_formedD[OF assms(1)]
  have "leaves t ! nat index \<in> set (leaves t)" using assms(2,3) by simp
  with W(8) have "leaves t ! nat index < length (nodes t)" unfolding leaves_ok_def by blast
  then show ?thesis using assms(2,3,4) by (simp add: Update_def Let_def)
qed

lemma Update_active:
  assumes w: "well_formed t" and ix: "0 \<le> index" "index < int (length (leaves t))" and np: "\<not> paused t"
  shows "\<exists>ns'. Update sha t index hsh = Some (t\<lparr>nodes := ns'\<rparr>, None) \<and> same_shape (nodes t) ns' \<and>
          hash (ns' ! (leaves t ! nat index)) = hsh \<and>
          (\<forall>q. (leaves t ! nat index, q) \<notin> (par_rel (nodes t))\<^sup>* \<longrightarrow> hash (ns' ! q) = hash (nodes t ! q)) \<and>
          (\<forall>i q. i < length (nodes t) \<longrightarrow> parent (nodes t ! i) = Some q \<longrightarrow>
                 (leaves t ! nat index, q) \<in> (par_rel (nodes t))\<^sup>* \<longrightarrow>
                 Parent (oriented_triplet ns' i) = sha (Left (oriented_triplet ns' i) @ Right (oriented_triplet ns' i)))"
proof -
  let ?ns = "nodes t" and ?l = "leaves t ! nat index"
  let ?R = "par_rel ?ns"
  note W = well_formedD[OF w]
  have "?l \<in> set (leaves t)" using ix by simp
  with W(8) have l: "?l < length ?ns" unfolding leaves_ok_def by blast
  define ns1 where "ns1 = ?ns[?l := (?ns ! ?l)\<lparr>hash := hsh\<rparr>]"
  have sh: "same_shape ?ns ns1" unfolding ns1_def by (rule same_shape_sethash)
  note D = same_shapeD[OF sh] and I = same_shape_invs[OF sh]
  have h1: "hash (ns1 ! i) = (if i = ?l then hsh else hash (?ns ! i))" for i
    using l by (simp add: ns1_def nth_list_update_if)
  have inv1: "ptrs_ok ns1" "sib_ok ns1" "kids_ok ns1" "heights_ok ns1" "\<forall>i<length ns1. height (ns1 ! i) \<le> tree_height t"
    using W by (simp_all add: I D)
  have tri: "Parent (oriented_triplet ns' i) = sha (Left (oriented_triplet ns' i) @ Right (oriented_triplet ns' i))"
    if s': "same_shape ?ns ns'" and i: "i < length ?ns" "parent (?ns ! i) = Some q"
      and c: "\<And>l' r'. l' < length ?ns \<Longrightarrow> parent (?ns ! l') = Some q \<Longrightarrow> right (?ns ! l') = Some r' \<Longrightarrow>
                 hash (ns' ! q) = sha (hash (ns' ! l') @ hash (ns' ! r'))" for ns' i q
  proof -
    note D' = same_shapeD[OF s']
    show ?thesis
    proof (cases "left (?ns ! i)")
      case (Some l')
      from sib_okD(1)[OF W(2,1) i(1) Some] i(2) have "l' < length ?ns" "right (?ns ! l') = Some i" "parent (?ns ! l') = Some q"
        by simp_all
      from c[OF this(1,3,2)] Some i(2) show ?thesis by (simp add: oriented_triplet_def D')
    next
      case None
      with sib_okD(4)[OF W(2,1) i(1)] i(2) obtain r' where r': "right (?ns ! i) = Some r'" by auto
      from c[OF i r'] None r' i(2) show ?thesis by (simp add: oriented_triplet_def D')
    qed
  qed
  show ?thesis
  proof (cases "parent (?ns ! ?l)")
    case None
    with sib_okD(4)[OF W(2,1) l] have lr: "left (?ns ! ?l) = None" "right (?ns ! ?l) = None" by simp_all
    have U: "Update sha t index hsh = Some (t\<lparr>nodes := ns1\<rparr>, None)"
      using ix l np lr unfolding ns1_def by (simp add: Update_def Let_def)
    have b1: "hash (ns1 ! q) = hash (?ns ! q)" if "(?l, q) \<notin> ?R\<^sup>*" for q
      using that by (auto simp: h1)
    have b2: "q = ?l" if "(?l, q) \<in> ?R\<^sup>*" for q using anc_root[OF that None] .
    have b3: False if "i < length ?ns" "parent (?ns ! i) = Some ?l" for i
      using heights_okD(2)[OF W(4) that] heights_okD(1)[OF W(4) that(1)] W(8) \<open>?l \<in> set (leaves t)\<close>
      unfolding leaves_ok_def by auto
    have b4: "Parent (oriented_triplet ns1 i) = sha (Left (oriented_triplet ns1 i) @ Right (oriented_triplet ns1 i))"
      if "i < length ?ns" "parent (?ns ! i) = Some q" "(?l, q) \<in> ?R\<^sup>*" for i q
      using b3[OF that(1)] that(2) b2[OF that(3)] by simp
    have b5: "hash (ns1 ! ?l) = hsh" by (simp add: h1)
    show ?thesis
      by (intro exI[of _ ns1] conjI allI impI U sh b5 b1 b4)
  next
    case (Some q)
    have ql: "q < length ?ns" using ptrs_okD(3)[OF W(1) l Some] .
    have hq: "height (?ns ! ?l) < height (?ns ! q)" using heights_okD(2)[OF W(4) l Some] .
    have nq: "(q, ?l) \<notin> (par_rel ns1)\<^sup>*"
      using anc_height_le[OF W(1,4), of q ?l] hq by (auto simp: I)
    have fin: ?thesis
      if call: "Update sha t index hsh =
           (case rehash sha ns1 (Some q) a b True of None \<Rightarrow> None | Some (ns', e) \<Rightarrow> Some (t\<lparr>nodes := ns1, nodes := ns'\<rparr>, e))"
        and l2: "l2 < length ns1" "parent (ns1 ! l2) = Some q" "right (ns1 ! l2) = Some r2"
        and ab: "a = hash (ns1 ! l2)" "b = hash (ns1 ! r2)" for a b l2 r2
    proof -
      from rehash_up[OF inv1 l2 ab, of sha] obtain ns' where
        ns': "rehash sha ns1 (Some q) a b True = Some (ns', None)" "same_shape ns1 ns'"
          "\<And>x. (q, x) \<notin> (par_rel ns1)\<^sup>* \<Longrightarrow> hash (ns' ! x) = hash (ns1 ! x)"
          "\<And>l' p' r'. l' < length ns1 \<Longrightarrow> parent (ns1 ! l') = Some p' \<Longrightarrow> right (ns1 ! l') = Some r' \<Longrightarrow>
                (q, p') \<in> (par_rel ns1)\<^sup>* \<Longrightarrow> hash (ns' ! p') = sha (hash (ns' ! l') @ hash (ns' ! r'))"
        by blast
      note s' = same_shape_trans[OF sh ns'(2)]
      have U: "Update sha t index hsh = Some (t\<lparr>nodes := ns'\<rparr>, None)" using call ns'(1) by simp
      have a1: "hash (ns' ! ?l) = hsh" using ns'(3)[OF nq] by (simp add: h1)
      have a2: "hash (ns' ! x) = hash (?ns ! x)" if x: "(?l, x) \<notin> ?R\<^sup>*" for x
      proof -
        have "x \<noteq> ?l" using x by auto
        moreover have "(q, x) \<notin> (par_rel ns1)\<^sup>*"
        proof
          assume "(q, x) \<in> (par_rel ns1)\<^sup>*"
          then have "(q, x) \<in> ?R\<^sup>*" by (simp add: I)
          moreover have "(?l, q) \<in> ?R" using l Some by (simp add: par_rel_def)
          ultimately have "(?l, x) \<in> ?R\<^sup>*" by (rule converse_rtrancl_into_rtrancl[rotated])
          with x show False by simp
        qed
        ultimately show ?thesis using ns'(3) by (simp add: h1)
      qed
      have a3: "Parent (oriented_triplet ns' i) = sha (Left (oriented_triplet ns' i) @ Right (oriented_triplet ns' i))"
        if i: "i < length ?ns" "parent (?ns ! i) = Some x" "(?l, x) \<in> ?R\<^sup>*" for i x
      proof (rule tri[OF s' i(1,2)])
        fix l' r' assume l': "l' < length ?ns" "parent (?ns ! l') = Some x" "right (?ns ! l') = Some r'"
        from anc_step[OF i(3) Some] have "(q, x) \<in> ?R\<^sup>*"
        proof
          assume "x = ?l"
          with heights_okD(2)[OF W(4) i(1,2)] heights_okD(1)[OF W(4) i(1)] W(8) \<open>?l \<in> set (leaves t)\<close>
          show ?thesis unfolding leaves_ok_def by auto
        qed
        with ns'(4)[of l' x r'] l' show "hash (ns' ! x) = sha (hash (ns' ! l') @ hash (ns' ! r'))"
          by (simp add: D I)
      qed
      show ?thesis
        by (intro exI[of _ ns'] conjI allI impI U s' a1 a2 a3)
    qed
    show ?thesis
    proof (cases "left (?ns ! ?l)")
      case sl: (Some l')
      from sib_okD(1)[OF W(2,1) l sl] Some have ll: "l' < length ?ns" "right (?ns ! l') = Some ?l" "parent (?ns ! l') = Some q"
        by simp_all
      show ?thesis
      proof (rule fin)
        show "Update sha t index hsh =
           (case rehash sha ns1 (Some q) (hash (ns1 ! l')) hsh True of None \<Rightarrow> None
            | Some (ns', e) \<Rightarrow> Some (t\<lparr>nodes := ns1, nodes := ns'\<rparr>, e))"
          using ix l np sl Some ll(1) unfolding ns1_def by (simp add: Update_def Let_def deref_def)
        show "l' < length ns1" using ll(1) by (simp add: D)
        show "parent (ns1 ! l') = Some q" using ll(3) by (simp add: D)
        show "right (ns1 ! l') = Some ?l" using ll(2) by (simp add: D)
        show "hsh = hash (ns1 ! ?l)" by (simp add: h1)
      qed simp
    next
      case None
      with sib_okD(4)[OF W(2,1) l] Some obtain r' where r': "right (?ns ! ?l) = Some r'" by auto
      from sib_okD(2)[OF W(2,1) l r'] have rr: "r' < length ?ns" by simp
      show ?thesis
      proof (rule fin)
        show "Update sha t index hsh =
           (case rehash sha ns1 (Some q) hsh (hash (ns1 ! r')) True of None \<Rightarrow> None
            | Some (ns', e) \<Rightarrow> Some (t\<lparr>nodes := ns1, nodes := ns'\<rparr>, e))"
          using ix l np None r' Some rr unfolding ns1_def by (simp add: Update_def Let_def deref_def)
        show "?l < length ns1" using l by (simp add: D)
        show "parent (ns1 ! ?l) = Some q" using Some by (simp add: D)
        show "right (ns1 ! ?l) = Some r'" using r' by (simp add: D)
        show "hsh = hash (ns1 ! ?l)" by (simp add: h1)
      qed simp
    qed
  qed
qed

lemma recompute_node_cases:
  "recompute_node sha ns h node top_row =
     (if length ns \<le> node then Some (ns, top_row, Some NilPointerDereference)
      else case parent (ns ! node) of
             None \<Rightarrow> Some (ns, top_row, None)
           | Some p \<Rightarrow>
               if length ns \<le> p then Some (ns, top_row, Some NilPointerDereference)
               else if height (ns ! p) = h + 1 then
                 (case right (ns ! node) of
                    None \<Rightarrow> Some (ns, top_row, Some NilPointerDereference)
                  | Some r \<Rightarrow>
                      if length ns \<le> r then Some (ns, top_row, Some NilPointerDereference)
                      else Some (ns[p := (ns ! p)\<lparr>hash := sha (hash (ns ! node) @ hash (ns ! r))\<rparr>], top_row @ [p], None))
               else Some (ns, top_row, None))"
  by (simp add: recompute_node_def deref_def rehash_no_parent split: option.split)

lemma recompute_node_shape:
  "recompute_node sha ns h node top_row = Some (ns', top_row', e) \<Longrightarrow> same_shape ns ns'"
  unfolding recompute_node_cases
  by (auto simp: same_shape_refl same_shape_sethash split: if_splits option.splits)

lemma recompute_row_shape:
  "recompute_row sha ns h rows top_row = Some (ns', top_row', e) \<Longrightarrow> same_shape ns ns'"
proof (induction sha ns h rows top_row rule: recompute_row.induct)
  case (1 sha ns h top_row)
  then show ?case by (simp add: same_shape_refl)
next
  case (2 sha ns h node top_row)
  then show ?case by (simp add: recompute_node_shape)
next
  case (3 sha ns h node skipped rest top_row)
  show ?case
  proof (cases "recompute_node sha ns h node top_row")
    case None
    with 3(2) show ?thesis by simp
  next
    case (Some res)
    obtain n1 t1 e1 where res: "res = (n1, t1, e1)" by (cases res)
    note s1 = recompute_node_shape[OF Some[unfolded res]]
    show ?thesis
    proof (cases e1)
      case None
      with 3(2) Some res have "recompute_row sha n1 h rest t1 = Some (ns', top_row', e)" by simp
      from "3.IH"[OF Some[unfolded res None] refl refl refl this] s1 show ?thesis by (rule same_shape_trans[rotated])
    next
      case (Some err)
      with 3(2) \<open>recompute_node sha ns h node top_row = Some res\<close> res s1 show ?thesis by simp
    qed
  qed
qed

lemma recompute_loop_shape:
  assumes "recompute_loop sha ns rows = Some y"
  shows "same_shape ns (fst y)"
  apply (rule recompute_loop.raw_induct[where P = "\<lambda>sha ns rows y. same_shape ns (fst y)"])
  subgoal premises prems for rl sha ns rows y
  proof (cases "length rows < 1")
    case True
    with prems(2) show ?thesis by (auto simp: same_shape_refl)
  next
    case False
    show ?thesis
    proof (cases "deref ns (Some (rows ! 0))")
      case None
      with prems(2) False show ?thesis by (auto simp: same_shape_refl)
    next
      case (Some r0)
      show ?thesis
      proof (cases "recompute_row sha ns (height r0) rows []")
        case None
        with prems(2) False Some show ?thesis by simp
      next
        case sr: (Some res)
        obtain n1 t1 e1 where res: "res = (n1, t1, e1)" by (cases res)
        note s1 = recompute_row_shape[OF sr[unfolded res]]
        show ?thesis
        proof (cases e1)
          case None
          with prems(2) False Some sr res have "rl sha n1 t1 = Some y" by simp
          from s1 prems(1)[OF this] show ?thesis by (rule same_shape_trans)
        next
          case (Some err)
          with prems(2) False \<open>deref ns (Some (rows ! 0)) = Some r0\<close> sr res s1 show ?thesis by auto
        qed
      qed
    qed
  qed
  apply (rule assms)
  done

lemma Resume_shape:
  assumes "Resume sha t = Some (t', e)"
  shows "same_shape (nodes t) (nodes t') \<and> root t' = root t \<and> leaves t' = leaves t \<and> tree_height t' = tree_height t"
proof (cases "recompute_loop sha (nodes t) (leaves t)")
  case None
  with assms show ?thesis by (simp add: Resume_def recompute_def)
next
  case (Some res)
  obtain ns' e' where res: "res = (ns', e')" by (cases res)
  from recompute_loop_shape[OF Some] res have "same_shape (nodes t) ns'" by simp
  with assms Some res show ?thesis by (cases e') (auto simp: Resume_def recompute_def)
qed

lemma well_formed_cong:
  assumes "well_formed t" "same_shape (nodes t) (nodes t')" "root t' = root t" "leaves t' = leaves t"
    "tree_height t' = tree_height t"
  shows "well_formed t'"
proof -
  note D = same_shapeD[OF assms(2)] and I = same_shape_invs[OF assms(2)]
  show ?thesis using assms(1) unfolding well_formed_def by (simp add: D I assms(3,4,5))
qed

lemma well_formed_new: "NewDynTree initialCap = Inr t \<Longrightarrow> well_formed t"
  by (auto simp: NewDynTree_def well_formed_def ptrs_ok_def sib_ok_def kids_ok_def heights_ok_def
      root_ok_def leaves_ok_def spine_ok_def split: if_splits)

lemma apply_op_well_formed:
  assumes w: "well_formed t" and a: "apply_op sha t x = Some (t', e)"
  shows "well_formed t'"
proof (cases x)
  case (OpAdd leaf)
  from Add_well_formed[OF w, of sha leaf] a OpAdd show ?thesis by auto
next
  case (OpUpdate index hsh)
  show ?thesis
  proof (cases "index < 0 \<or> int (length (leaves t)) \<le> index")
    case True
    from Update_out_of_range[OF True, of sha hsh] a OpUpdate w show ?thesis by simp
  next
    case False
    then have ix: "0 \<le> index" "index < int (length (leaves t))" by auto
    show ?thesis
    proof (cases "paused t")
      case True
      from Update_paused[OF w ix True, of sha hsh] a OpUpdate
      have "t' = t\<lparr>nodes := (nodes t)[leaves t ! nat index := (nodes t ! (leaves t ! nat index))\<lparr>hash := hsh\<rparr>]\<rparr>"
        by simp
      with well_formed_same_shape[OF w same_shape_sethash] show ?thesis by simp
    next
      case False
      from Update_active[OF w ix False, of sha hsh] a OpUpdate obtain ns' where
        "t' = t\<lparr>nodes := ns'\<rparr>" "same_shape (nodes t) ns'" by auto
      with well_formed_same_shape[OF w] show ?thesis by simp
    qed
  qed
next
  case OpPause
  with a have "t' = t\<lparr>paused := True\<rparr>" by (simp add: Pause_def)
  with w show ?thesis by (simp add: well_formed_def)
next
  case OpResume
  with a have "Resume sha t = Some (t', e)" by simp
  from Resume_shape[OF this] well_formed_cong[OF w] show ?thesis by blast
qed

lemma run_well_formed:
  "well_formed t \<Longrightarrow> run sha t ops = Some t' \<Longrightarrow> well_formed t'"
proof (induction ops arbitrary: t)
  case Nil
  then show ?case by simp
next
  case (Cons x xs)
  show ?case
  proof (cases "apply_op sha t x")
    case None
    with Cons.prems(2) show ?thesis by simp
  next
    case (Some res)
    obtain t1 e1 where res: "res = (t1, e1)" by (cases res)
    from apply_op_well_formed[OF Cons.prems(1) Some[unfolded res]] have "well_formed t1" .
    moreover from Cons.prems(2) Some res have "run sha t1 xs = Some t'" by simp
    ultimately show ?thesis by (rule Cons.IH)
  qed
qed

lemma Adds_ok:
  "well_formed t \<Longrightarrow> \<not> paused t \<Longrightarrow> hashes_ok_except sha (nodes t) {} \<Longrightarrow>
   \<exists>t'. Adds sha t xs = Some (t', None) \<and> well_formed t' \<and> \<not> paused t' \<and>
        hashes_ok_except sha (nodes t') {} \<and> length (leaves t') = length (leaves t) + length xs"
proof (induction xs arbitrary: t)
  case Nil
  then show ?case by simp
next
  case (Cons x xs)
  from Add_well_formed[OF Cons.prems(1), of sha x] Cons.prems(2,3) obtain t1 where
    t1: "Add sha t x = Some (t1, None)" "well_formed t1" "\<not> paused t1" "hashes_ok_except sha (nodes t1) {}"
      "leaves t1 = leaves t @ [length (nodes t)]" by auto
  from Cons.IH[OF t1(2,3,4)] obtain t' where
    "Adds sha t1 xs = Some (t', None)" "well_formed t'" "\<not> paused t'"
    "hashes_ok_except sha (nodes t') {}" "length (leaves t') = length (leaves t1) + length xs" by blast
  with t1(1,5) show ?case by simp
qed

lemma paired_snoc_even:
  "even (length xs) \<Longrightarrow> paired ns k (xs @ [z]) = (paired ns k xs \<and> \<not> rchild ns k z)"
  by (induction ns k xs rule: paired.induct) auto

lemma paired_snoc_odd:
  "odd (length xs) \<Longrightarrow> paired ns k (xs @ [z]) =
     (paired ns k xs \<and> rchild ns k z \<and> left (ns ! z) = Some (last xs))"
  by (induction ns k xs rule: paired.induct) auto

lemma paired_last:
  "paired ns k xs \<Longrightarrow> xs \<noteq> [] \<Longrightarrow> rchild ns k (last xs) \<longleftrightarrow> even (length xs)"
  by (induction ns k xs rule: paired.induct) auto

lemma paired_cong:
  assumes "\<And>x. x \<in> set xs \<Longrightarrow> rchild ns' k x = rchild ns k x"
    and "\<And>x. x \<in> set xs \<Longrightarrow> rchild ns k x \<Longrightarrow> left (ns' ! x) = left (ns ! x)"
  shows "paired ns' k xs = paired ns k xs"
  using assms
proof (induction ns k xs rule: paired.induct)
  case (1 ns k)
  then show ?case by simp
next
  case (2 ns k x)
  then show ?case by simp
next
  case (3 ns k x y rest)
  have "paired ns' k rest = paired ns k rest"
    by (rule "3.IH") (simp_all add: "3.prems")
  moreover have "rchild ns' k x = rchild ns k x" "rchild ns' k y = rchild ns k y"
    by (simp_all add: "3.prems")
  moreover have "rchild ns k y \<Longrightarrow> left (ns' ! y) = left (ns ! y)"
    by (simp add: "3.prems")
  ultimately show ?case by auto
qed

lemma lev_mem: "x \<in> set (lev ns k) \<longleftrightarrow> x < length ns \<and> height (ns ! x) = k"
  by (auto simp: lev_def)

lemma lev_sorted: "sorted (lev ns k)" "distinct (lev ns k)"
  by (simp_all add: lev_def sorted_filter[where f = "\<lambda>x. x", simplified])

lemma lev_linked:
  assumes c: "c < length ns"
  shows "lev (linked ns c lf) k =
           lev ns k @ (if k = 0 then [length ns] else []) @
           (if k = height (ns ! c) + 1 then [Suc (length ns)] else [])"
proof -
  let ?n = "linked ns c lf"
  have u: "[0..<length ns + 2] = [0..<length ns] @ [length ns, Suc (length ns)]" by simp
  have old: "filter (\<lambda>i. height (?n ! i) = k) [0..<length ns] = lev ns k"
    unfolding lev_def by (rule filter_cong) (simp_all add: linked_height_old[OF c])
  have ha: "height (?n ! length ns) = 0" and hb: "height (?n ! Suc (length ns)) = height (ns ! c) + 1"
    using c by (simp_all add: linked_a linked_b)
  show ?thesis
    unfolding lev_def[of ?n] length_linked u filter_append old
    by (simp add: ha hb) 
qed

lemma climb_relD: "(i, p) \<in> climb_rel ns \<Longrightarrow> i < length ns \<and> parent (ns ! i) = Some p \<and> height (ns ! p) = height (ns ! i) + 1"
  by (simp add: climb_rel_def)

lemma climb_rel_snoc_leaf:
  assumes "ptrs_ok ns"
  shows "climb_rel (ns @ [leaf_node lf]) = climb_rel ns"
proof -
  have "(i < length ns + 1 \<and> parent ((ns @ [leaf_node lf]) ! i) = Some p \<and>
          height ((ns @ [leaf_node lf]) ! p) = height ((ns @ [leaf_node lf]) ! i) + 1) =
        (i < length ns \<and> parent (ns ! i) = Some p \<and> height (ns ! p) = height (ns ! i) + 1)" for i p
  proof (cases "i < length ns")
    case True
    show ?thesis
    proof (cases "parent (ns ! i) = Some p")
      case t: True
      from ptrs_okD(3)[OF assms True t] True t show ?thesis by (simp add: nth_append)
    next
      case False
      with True show ?thesis by (simp add: nth_append)
    qed
  next
    case False
    then show ?thesis by (cases "i = length ns") (simp_all add: leaf_node_def)
  qed
  then show ?thesis by (simp add: climb_rel_def)
qed

lemma Add_climb_cand_chain:
  assumes w: "well_formed t" and ne: "leaves t \<noteq> []"
  shows "\<exists>c. Add_climb (nodes t @ [leaf_node lf]) (last (leaves t)) = Some (Inr c) \<and>
             cand_ok (nodes t) c \<and> (last (leaves t), c) \<in> (climb_rel (nodes t))\<^sup>*"
proof -
  let ?ns = "nodes t" and ?n1 = "nodes t @ [leaf_node lf]"
  note W = well_formedD[OF w]
  have ll: "last (leaves t) < length ?ns" using W(8) ne unfolding leaves_ok_def by simp
  have b1: "\<forall>i<length ?n1. height (?n1 ! i) \<le> tree_height t"
  proof (intro allI impI)
    fix i assume "i < length ?n1"
    then have "i < length ?ns \<or> i = length ?ns" by auto
    then show "height (?n1 ! i) \<le> tree_height t"
      using W(5,6) by (auto simp: nth_append leaf_node_def)
  qed
  from Add_climb_chain[OF ptrs_ok_snoc_leaf[OF W(1)] b1, of "last (leaves t)"] ll
  obtain c where c: "Add_climb ?n1 (last (leaves t)) = Some (Inr c)" "(last (leaves t), c) \<in> (climb_rel ?n1)\<^sup>*"
    by auto
  from c(2) have ch: "(last (leaves t), c) \<in> (climb_rel ?ns)\<^sup>*" by (simp add: climb_rel_snoc_leaf[OF W(1)])
  from Add_climb_cand[OF w ne, of lf] c(1) have "cand_ok ?ns c" by auto
  with c(1) ch show ?thesis by blast
qed

lemma chain_levels:
  assumes "(x, c) \<in> (climb_rel ns)\<^sup>*" "height (ns ! x) \<le> k" "k < height (ns ! c)"
  shows "\<exists>s p. (x, s) \<in> (climb_rel ns)\<^sup>* \<and> s < length ns \<and> height (ns ! s) = k \<and>
               parent (ns ! s) = Some p \<and> height (ns ! p) = k + 1"
  using assms
proof (induction rule: converse_rtrancl_induct)
  case base
  then show ?case by simp
next
  case (step y z)
  note yz = climb_relD[OF step(1)]
  show ?case
  proof (cases "k = height (ns ! y)")
    case True
    with yz have "(y, y) \<in> (climb_rel ns)\<^sup>* \<and> y < length ns \<and> height (ns ! y) = k \<and>
               parent (ns ! y) = Some z \<and> height (ns ! z) = k + 1" by simp
    then show ?thesis by blast
  next
    case False
    with step.prems yz have "height (ns ! z) \<le> k" by simp
    from step.IH[OF this step.prems(2)] obtain s p where
      s: "(z, s) \<in> (climb_rel ns)\<^sup>*" "s < length ns" "height (ns ! s) = k"
         "parent (ns ! s) = Some p" "height (ns ! p) = k + 1" by blast
    from step(1) s(1) have "(y, s) \<in> (climb_rel ns)\<^sup>*" by (rule converse_rtrancl_into_rtrancl)
    with s show ?thesis by blast
  qed
qed

lemma chain_first:
  assumes "(x, c) \<in> (climb_rel ns)\<^sup>*" "x \<noteq> c"
  shows "\<exists>p. parent (ns ! x) = Some p \<and> height (ns ! p) = height (ns ! x) + 1"
  using assms by (cases rule: converse_rtranclE) (auto dest: climb_relD)

lemma chain_height:
  assumes "(x, c) \<in> (climb_rel ns)\<^sup>*"
  shows "height (ns ! x) \<le> height (ns ! c) \<and> (height (ns ! x) = height (ns ! c) \<longrightarrow> x = c)"
  using assms
proof (induction rule: converse_rtrancl_induct)
  case base
  then show ?case by simp
next
  case (step y z)
  from climb_relD[OF step(1)] step.IH show ?case by auto
qed

lemma add_ctxD:
  assumes "add_ctx ns ls c"
  shows "ptrs_ok ns" "sib_ok ns" "kids_ok ns" "heights_ok ns" "spine_ok ns ls" "leaves_ok ns ls"
    "ls \<noteq> []" "cand_ok ns c" "(last ls, c) \<in> (climb_rel ns)\<^sup>*"
    "ls = lev ns 0" "levels_ok ns" "inner_ok ns" "mono_ok ns" "spine_levels ns ls"
  using assms unfolding add_ctx_def by blast+

lemma spine_right_child:
  assumes p: "ptrs_ok ns" and s: "sib_ok ns" and sp: "spine_ok ns ls" and ne: "ls \<noteq> []"
    and a: "(last ls, x) \<in> (par_rel ns)\<^sup>*" and x: "x < length ns" and px: "parent (ns ! x) = Some q"
  shows "left (ns ! x) \<noteq> None"
proof -
  from sp ne a have "right (ns ! x) = None" unfolding spine_ok_def by blast
  with sib_okD(4)[OF s p x] px show ?thesis by auto
qed

lemma spine_levelsD:
  assumes "spine_levels ns ls" "ls \<noteq> []" "(last ls, s) \<in> (par_rel ns)\<^sup>*"
  shows "lev ns (height (ns ! s)) \<noteq> []" "last (lev ns (height (ns ! s))) = s"
    "parent (ns ! s) = None \<Longrightarrow> height (ns ! s) < k \<Longrightarrow> lev ns k = []"
    "parent (ns ! s) = Some pp \<Longrightarrow> height (ns ! s) < k \<Longrightarrow> k < height (ns ! pp) - 1 \<Longrightarrow> even (length (lev ns k))"
    "parent (ns ! s) = Some pp \<Longrightarrow> height (ns ! s) < height (ns ! pp) - 1 \<Longrightarrow>
       \<exists>x. left (ns ! s) = Some x \<and> lev ns (height (ns ! pp) - 1) \<noteq> [] \<and> last (lev ns (height (ns ! pp) - 1)) = x"
proof -
  from assms have A: "spine_node_ok ns s" unfolding spine_levels_def by blast
  note B = A[unfolded spine_node_ok_def]
  show "lev ns (height (ns ! s)) \<noteq> []" "last (lev ns (height (ns ! s))) = s"
    using B by blast+
  show "parent (ns ! s) = None \<Longrightarrow> height (ns ! s) < k \<Longrightarrow> lev ns k = []"
    using B by simp
  show "parent (ns ! s) = Some pp \<Longrightarrow> height (ns ! s) < k \<Longrightarrow> k < height (ns ! pp) - 1 \<Longrightarrow> even (length (lev ns k))"
    using B by simp
  show "parent (ns ! s) = Some pp \<Longrightarrow> height (ns ! s) < height (ns ! pp) - 1 \<Longrightarrow>
       \<exists>x. left (ns ! s) = Some x \<and> lev ns (height (ns ! pp) - 1) \<noteq> [] \<and> last (lev ns (height (ns ! pp) - 1)) = x"
    using B by simp
qed

lemma cand_levels:
  assumes ctx: "add_ctx ns ls c"
  shows "last ls < length ns" "height (ns ! last ls) = 0"
    and "0 \<le> k \<Longrightarrow> k < height (ns ! c) \<Longrightarrow> even (length (lev ns k))"
    and "lev ns (height (ns ! c)) \<noteq> []" "last (lev ns (height (ns ! c))) = c"
        "\<not> rchild ns (height (ns ! c)) c" "odd (length (lev ns (height (ns ! c))))"
    and "parent (ns ! c) = None \<Longrightarrow> height (ns ! c) < k \<Longrightarrow> lev ns k = []"
    and "parent (ns ! c) = Some pp \<Longrightarrow>
           height (ns ! c) + 2 \<le> height (ns ! pp) \<and>
           (\<forall>k. height (ns ! c) < k \<and> k < height (ns ! pp) - 1 \<longrightarrow> even (length (lev ns k))) \<and>
           (\<exists>x. left (ns ! c) = Some x \<and> height (ns ! x) = height (ns ! pp) - 1 \<and>
                lev ns (height (ns ! pp) - 1) \<noteq> [] \<and> last (lev ns (height (ns ! pp) - 1)) = x \<and>
                odd (length (lev ns (height (ns ! pp) - 1))))"
proof -
  note C = add_ctxD[OF ctx]
  have c: "c < length ns" "right (ns ! c) = None" using C(8) by (simp_all add: cand_ok_def)
  have stop: "\<And>q. parent (ns ! c) = Some q \<Longrightarrow> height (ns ! q) \<noteq> height (ns ! c) + 1"
    using C(8) by (simp add: cand_ok_def)
  have lm: "last ls \<in> set ls" using C(7) by simp
  with C(6) show l: "last ls < length ns" and h0: "height (ns ! last ls) = 0"
    unfolding leaves_ok_def by blast+
  note cp = climb_rel_sub[OF C(9)]
  note SL = spine_levelsD[OF C(14) C(7)]
  note P = C(11)[unfolded levels_ok_def, rule_format]
  show "even (length (lev ns k))" if k: "0 \<le> k" "k < height (ns ! c)"
  proof -
    from chain_levels[OF C(9), of k] h0 k obtain s q where
      s: "(last ls, s) \<in> (climb_rel ns)\<^sup>*" "s < length ns" "height (ns ! s) = k"
         "parent (ns ! s) = Some q" "height (ns ! q) = k + 1" by auto
    note sp = climb_rel_sub[OF s(1)]
    from spine_right_child[OF C(1,2,5,7) sp s(2,4)] s(4,5) have "rchild ns k s" by (simp add: rchild_def)
    with paired_last[OF P[of k]] SL(1,2)[OF sp] s(3) show ?thesis by simp
  qed
  show 4: "lev ns (height (ns ! c)) \<noteq> []" "last (lev ns (height (ns ! c))) = c"
    using SL(1,2)[OF cp] by simp_all
  show nr: "\<not> rchild ns (height (ns ! c)) c" using stop by (auto simp: rchild_def)
  with paired_last[OF P 4(1)] 4(2) show "odd (length (lev ns (height (ns ! c))))" by simp
  show "lev ns k = []" if "parent (ns ! c) = None" "height (ns ! c) < k"
    using SL(3)[OF cp that] .
  show "height (ns ! c) + 2 \<le> height (ns ! pp) \<and>
           (\<forall>k. height (ns ! c) < k \<and> k < height (ns ! pp) - 1 \<longrightarrow> even (length (lev ns k))) \<and>
           (\<exists>x. left (ns ! c) = Some x \<and> height (ns ! x) = height (ns ! pp) - 1 \<and>
                lev ns (height (ns ! pp) - 1) \<noteq> [] \<and> last (lev ns (height (ns ! pp) - 1)) = x \<and>
                odd (length (lev ns (height (ns ! pp) - 1))))"
    if pp: "parent (ns ! c) = Some pp"
  proof -
    from heights_okD(2)[OF C(4) c(1) pp] stop[OF pp] have hp: "height (ns ! c) + 2 \<le> height (ns ! pp)" by simp
    then have lt: "height (ns ! c) < height (ns ! pp) - 1" by simp
    from SL(5)[OF cp pp lt] obtain x where
      x: "left (ns ! c) = Some x" "lev ns (height (ns ! pp) - 1) \<noteq> []" "last (lev ns (height (ns ! pp) - 1)) = x"
      by blast
    from x(2,3) have "x \<in> set (lev ns (height (ns ! pp) - 1))" by (metis last_in_set)
    then have hx: "height (ns ! x) = height (ns ! pp) - 1" by (simp add: lev_mem)
    from cand_sibling(5)[OF C(1,2,8) x(1)] have "\<not> rchild ns (height (ns ! pp) - 1) x" by (simp add: rchild_def)
    with paired_last[OF P x(2)] x(3) have "odd (length (lev ns (height (ns ! pp) - 1)))" by simp
    with hp x hx SL(4)[OF cp pp] show ?thesis by blast
  qed
qed

lemma rchild_linked:
  assumes ctx: "add_ctx ns ls c" and x: "x < length ns" "height (ns ! x) = k"
  shows "rchild (linked ns c lf) k x = rchild ns k x"
    and "rchild ns k x \<Longrightarrow> left (linked ns c lf ! x) = left (ns ! x)"
proof -
  let ?n = "linked ns c lf"
  note C = add_ctxD[OF ctx]
  have c: "c < length ns" using C(8) by (simp add: cand_ok_def)
  note cs = cand_sibling[OF C(1,2,8)]
  note ho = linked_height_old[OF c]
  have "rchild ?n k x = rchild ns k x \<and> (rchild ns k x \<longrightarrow> left (?n ! x) = left (ns ! x))"
  proof (cases "x = c")
    case True
    have "\<not> rchild ns k x" using cand_levels(6)[OF ctx] x(2) True by simp
    moreover have "\<not> rchild ?n k x" using True c by (simp add: rchild_def linked_c)
    ultimately show ?thesis by simp
  next
    case xc: False
    show ?thesis
    proof (cases "left (ns ! c) = Some x")
      case True
      from cs(4)[OF True] cs(6)[OF True] obtain pp where pp: "parent (ns ! x) = Some pp" by auto
      from ptrs_okD(3)[OF C(1) x(1) pp] have "pp < length ns" .
      with ho[OF this] pp True x(1) xc c show ?thesis by (simp add: rchild_def linked_x)
    next
      case False
      with x(1) xc c have e: "?n ! x = ns ! x" by (simp add: linked_other)
      show ?thesis
      proof (cases "parent (ns ! x)")
        case None
        with e show ?thesis by (simp add: rchild_def)
      next
        case (Some q)
        from ptrs_okD(3)[OF C(1) x(1) Some] have "q < length ns" .
        with ho[OF this] Some e show ?thesis by (simp add: rchild_def)
      qed
    qed
  qed
  then show "rchild ?n k x = rchild ns k x" "rchild ns k x \<Longrightarrow> left (?n ! x) = left (ns ! x)"
    by blast+
qed

lemma paired_linked_old:
  assumes ctx: "add_ctx ns ls c"
  shows "paired (linked ns c lf) k (lev ns k)"
proof -
  note C = add_ctxD[OF ctx]
  have "paired (linked ns c lf) k (lev ns k) = paired ns k (lev ns k)"
    by (rule paired_cong) (simp_all add: lev_mem rchild_linked[OF ctx])
  with C(11) show ?thesis by (simp add: levels_ok_def)
qed

lemma levels_ok_linked:
  assumes ctx: "add_ctx ns ls c"
  shows "levels_ok (linked ns c lf)"
  unfolding levels_ok_def
proof
  fix k
  let ?n = "linked ns c lf" and ?h = "height (ns ! c)"
  note C = add_ctxD[OF ctx]
  note F = cand_levels[OF ctx]
  have c: "c < length ns" using C(8) by (simp add: cand_ok_def)
  have h0: "0 \<le> ?h" using heights_okD(1)[OF C(4) c] .
  note old = paired_linked_old[OF ctx, of lf]
  note L = lev_linked[OF c, of lf]
  have na: "?n ! length ns = \<lparr>hash = lf, left = Some c, right = None, parent = Some (length ns + 1), height = 0\<rparr>"
    using c by (rule linked_a)
  have nb: "?n ! Suc (length ns) = \<lparr>hash = [], left = left (ns ! c), right = None, parent = parent (ns ! c), height = ?h + 1\<rparr>"
    using c by (rule linked_b)
  show "paired ?n k (lev ?n k)"
  proof (cases "k = 0")
    case True
    have l0: "lev ?n 0 = lev ns 0 @ [length ns]" using L[of 0] h0 by simp
    show ?thesis
    proof (cases "?h = 0")
      case h: True
      have od: "odd (length (lev ns 0))" using F(7) h by simp
      have "rchild ?n 0 (length ns)" using h by (simp add: rchild_def na nb)
      moreover have "left (?n ! length ns) = Some (last (lev ns 0))" using F(5) h by (simp add: na)
      ultimately show ?thesis unfolding True l0 using old[of 0] by (simp add: paired_snoc_odd[OF od])
    next
      case False
      with h0 have "0 < ?h" by simp
      from F(3)[OF _ this] have ev: "even (length (lev ns 0))" by simp
      have "\<not> rchild ?n 0 (length ns)" using False by (simp add: rchild_def na nb)
      then show ?thesis unfolding True l0 using old[of 0] by (simp add: paired_snoc_even[OF ev])
    qed
  next
    case k0: False
    show ?thesis
    proof (cases "k = ?h + 1")
      case False
      with k0 L[of k] old[of k] show ?thesis by simp
    next
      case True
      have l1: "lev ?n (?h + 1) = lev ns (?h + 1) @ [Suc (length ns)]" using L[of "?h + 1"] True k0 by simp
      show ?thesis
      proof (cases "parent (ns ! c)")
        case None
        from F(8)[OF None, of "?h + 1"] have e: "lev ns (?h + 1) = []" by simp
        have "\<not> rchild ?n (?h + 1) (Suc (length ns))" using None by (simp add: rchild_def nb)
        then show ?thesis unfolding True l1 e by simp
      next
        case (Some pp)
        from F(9)[OF Some] obtain x where
          f: "?h + 2 \<le> height (ns ! pp)"
             "\<And>k. ?h < k \<Longrightarrow> k < height (ns ! pp) - 1 \<Longrightarrow> even (length (lev ns k))"
             "left (ns ! c) = Some x" "height (ns ! x) = height (ns ! pp) - 1"
             "last (lev ns (height (ns ! pp) - 1)) = x" "odd (length (lev ns (height (ns ! pp) - 1)))"
          by blast
        from ptrs_okD(3)[OF C(1) c Some] have ppl: "pp < length ns" .
        have hpp: "height (?n ! pp) = height (ns ! pp)" using linked_height_old[OF c ppl] .
        show ?thesis
        proof (cases "height (ns ! pp) = ?h + 2")
          case t: True
          then have e: "height (ns ! pp) - 1 = ?h + 1" by simp
          have od: "odd (length (lev ns (?h + 1)))" using f(6) e by simp
          have "rchild ?n (?h + 1) (Suc (length ns))" using Some f(3) t hpp by (simp add: rchild_def nb)
          moreover have "left (?n ! Suc (length ns)) = Some (last (lev ns (?h + 1)))" using f(3,5) e by (simp add: nb)
          ultimately show ?thesis unfolding True l1 using old[of "?h + 1"] by (simp add: paired_snoc_odd[OF od])
        next
          case False
          with f(1) have "?h + 1 < height (ns ! pp) - 1" by simp
          from f(2)[OF _ this] have ev: "even (length (lev ns (?h + 1)))" by simp
          have "\<not> rchild ?n (?h + 1) (Suc (length ns))" using Some False hpp by (simp add: rchild_def nb)
          then show ?thesis unfolding True l1 using old[of "?h + 1"] by (simp add: paired_snoc_even[OF ev])
        qed
      qed
    qed
  qed
qed

lemma inner_ok_linked:
  assumes ctx: "add_ctx ns ls c"
  shows "inner_ok (linked ns c lf)"
  unfolding inner_ok_def length_linked
proof (intro allI impI)
  fix p assume p: "p < length ns + 2" and hp: "height (linked ns c lf ! p) \<noteq> 0"
  let ?n = "linked ns c lf"
  note C = add_ctxD[OF ctx]
  have c: "c < length ns" "right (ns ! c) = None" using C(8) by (simp_all add: cand_ok_def)
  from p have "p < length ns \<or> p = length ns \<or> p = Suc (length ns)" by auto
  then show "\<exists>l<length ns + 2. parent (?n ! l) = Some p \<and> right (?n ! l) \<noteq> None"
  proof (elim disjE)
    assume pl: "p < length ns"
    with hp c have "height (ns ! p) \<noteq> 0" by (simp add: linked_height_old)
    with C(12) pl obtain l where l: "l < length ns" "parent (ns ! l) = Some p" "right (ns ! l) \<noteq> None"
      unfolding inner_ok_def by blast
    have lc: "l \<noteq> c" using l(3) c(2) by auto
    have "parent (?n ! l) = Some p" using l(1,2) lc c(1) by (simp add: linked_parent)
    moreover have "right (?n ! l) \<noteq> None" using l(1,3) lc c(1) by (simp add: linked_right)
    ultimately show ?thesis using l(1) by (intro exI[of _ l]) simp
  next
    assume "p = length ns"
    with hp c show ?thesis by (simp add: linked_a)
  next
    assume pb: "p = Suc (length ns)"
    have "parent (?n ! c) = Some p" "right (?n ! c) \<noteq> None" using c pb by (simp_all add: linked_c)
    with c(1) show ?thesis by (intro exI[of _ c]) simp
  qed
qed

lemma mono_ok_linked:
  assumes ctx: "add_ctx ns ls c"
  shows "mono_ok (linked ns c lf)"
  unfolding mono_ok_def length_linked
proof (intro allI impI)
  fix l1 l2 p1 p2
  let ?n = "linked ns c lf"
  assume l1: "l1 < length ns + 2" and l2: "l2 < length ns + 2"
    and a: "l1 < l2 \<and> height (?n ! l1) = height (?n ! l2) \<and> right (?n ! l1) \<noteq> None \<and> right (?n ! l2) \<noteq> None \<and>
        parent (?n ! l1) = Some p1 \<and> parent (?n ! l2) = Some p2"
  note C = add_ctxD[OF ctx]
  note F = cand_levels[OF ctx]
  have c: "c < length ns" "right (ns ! c) = None" using C(8) by (simp_all add: cand_ok_def)
  have old: "l < length ns \<and> (l = c \<or> right (ns ! l) \<noteq> None)" if "l < length ns + 2" "right (?n ! l) \<noteq> None" for l
    using that c cand_sibling(3)[OF C(1,2,8), of l]
    by (cases "l < length ns"; cases "l = length ns") (auto simp: linked_right split: if_splits)
  from old[OF l1] a have o1: "l1 < length ns" "l1 = c \<or> right (ns ! l1) \<noteq> None" by simp_all
  from old[OF l2] a have o2: "l2 < length ns" "l2 = c \<or> right (ns ! l2) \<noteq> None" by simp_all
  have hh: "height (ns ! l1) = height (ns ! l2)" using a o1(1) o2(1) c(1) by (simp add: linked_height_old)
  have n1c: "l1 \<noteq> c"
  proof
    assume e: "l1 = c"
    from hh e o2(1) have "l2 \<in> set (lev ns (height (ns ! c)))" by (simp add: lev_mem)
    then obtain j where j: "j < length (lev ns (height (ns ! c)))" "lev ns (height (ns ! c)) ! j = l2"
      by (auto simp: in_set_conv_nth)
    have "lev ns (height (ns ! c)) ! j \<le> last (lev ns (height (ns ! c)))"
      using lev_sorted(1)[of ns "height (ns ! c)"] j(1) F(4)
      by (simp add: last_conv_nth sorted_iff_nth_mono)
    with j(2) F(5) a e show False by simp
  qed
  with o1 have r1: "right (ns ! l1) \<noteq> None" by simp
  have q1: "parent (ns ! l1) = Some p1" using a o1(1) n1c c(1) by (simp add: linked_parent)
  from ptrs_okD(3)[OF C(1) o1(1) q1] have p1l: "p1 < length ns" .
  show "p1 < p2"
  proof (cases "l2 = c")
    case True
    with a c(1) have "p2 = Suc (length ns)" by (simp add: linked_c)
    with p1l show ?thesis by simp
  next
    case False
    with o2 have r2: "right (ns ! l2) \<noteq> None" by simp
    have q2: "parent (ns ! l2) = Some p2" using a o2(1) False c(1) by (simp add: linked_parent)
    from C(13)[unfolded mono_ok_def, rule_format, OF o1(1) o2(1), of p1 p2] a hh r1 r2 q1 q2
    show ?thesis by simp
  qed
qed

lemma lev_linked_same:
  "c < length ns \<Longrightarrow> k \<noteq> 0 \<Longrightarrow> k \<noteq> height (ns ! c) + 1 \<Longrightarrow> lev (linked ns c lf) k = lev ns k"
  by (simp add: lev_linked)

lemma spine_levels_linked:
  assumes ctx: "add_ctx ns ls c"
  shows "spine_levels (linked ns c lf) (ls @ [length ns])"
  unfolding spine_levels_def
proof (intro impI allI)
  fix s
  let ?n = "linked ns c lf" and ?h = "height (ns ! c)"
  note C = add_ctxD[OF ctx]
  note F = cand_levels[OF ctx]
  have c: "c < length ns" "right (ns ! c) = None" using C(8) by (simp_all add: cand_ok_def)
  have h0: "0 \<le> ?h" using heights_okD(1)[OF C(4) c(1)] .
  note same = lev_linked_same[OF c(1), of _ lf]
  note L = lev_linked[OF c(1), of lf]
  have na: "?n ! length ns = \<lparr>hash = lf, left = Some c, right = None, parent = Some (length ns + 1), height = 0\<rparr>"
    using c(1) by (rule linked_a)
  have nb: "?n ! Suc (length ns) = \<lparr>hash = [], left = left (ns ! c), right = None, parent = parent (ns ! c), height = ?h + 1\<rparr>"
    using c(1) by (rule linked_b)
  assume "(last (ls @ [length ns]), s) \<in> (par_rel ?n)\<^sup>*"
  then have "(length ns, s) \<in> (par_rel ?n)\<^sup>*" by simp
  from spine_linked_anc[OF C(1,2,4,8) this] show "spine_node_ok ?n s"
  proof (elim disjE)
    assume s: "s = length ns"
    have l0: "lev ?n 0 = lev ns 0 @ [length ns]" using L[of 0] h0 by simp
    have 1: "even (length (lev ?n k))" if "0 < k" "k < ?h + 1 - 1" for k
      using that F(3)[of k] same[of k] by simp
    have 2: "\<exists>x. left (?n ! length ns) = Some x \<and> lev ?n (?h + 1 - 1) \<noteq> [] \<and> last (lev ?n (?h + 1 - 1)) = x"
      if "0 < ?h + 1 - 1"
      using that F(4,5) same[of ?h] by (simp add: na)
    show ?thesis
      unfolding spine_node_ok_def s using 1 2 by (simp add: na nb l0)
  next
    assume s: "s = Suc (length ns)"
    have l1: "lev ?n (?h + 1) = lev ns (?h + 1) @ [Suc (length ns)]" using L[of "?h + 1"] h0 by simp
    show ?thesis
    proof (cases "parent (ns ! c)")
      case None
      have "lev ?n k = []" if "?h + 1 < k" for k
        using that F(8)[OF None, of k] same[of k] h0 by simp
      then show ?thesis unfolding spine_node_ok_def s by (simp add: nb l1 None)
    next
      case (Some pp)
      from F(9)[OF Some] obtain x where
        f: "?h + 2 \<le> height (ns ! pp)"
           "\<And>k. ?h < k \<Longrightarrow> k < height (ns ! pp) - 1 \<Longrightarrow> even (length (lev ns k))"
           "left (ns ! c) = Some x" "lev ns (height (ns ! pp) - 1) \<noteq> []"
           "last (lev ns (height (ns ! pp) - 1)) = x"
        by blast
      from ptrs_okD(3)[OF C(1) c(1) Some] have ppl: "pp < length ns" .
      have hpp: "height (?n ! pp) = height (ns ! pp)" using linked_height_old[OF c(1) ppl] .
      have 1: "even (length (lev ?n k))" if "?h + 1 < k" "k < height (ns ! pp) - 1" for k
        using that f(2)[of k] same[of k] h0 by simp
      have 2: "\<exists>x. left (ns ! c) = Some x \<and> lev ?n (height (ns ! pp) - 1) \<noteq> [] \<and> last (lev ?n (height (ns ! pp) - 1)) = x"
        if "?h + 1 < height (ns ! pp) - 1"
        using that f(3,4,5) same[of "height (ns ! pp) - 1"] h0 by simp
      show ?thesis unfolding spine_node_ok_def s using 1 2 by (simp add: nb l1 Some hpp)
    qed
  next
    assume cs: "(c, s) \<in> (par_rel ns)\<^sup>+"
    from anc_height[OF C(1,4) cs] have sl: "s < length ns" "?h < height (ns ! s)" by simp_all
    then have sc: "s \<noteq> c" by auto
    from tranclD[OF cs] obtain z where z: "(c, z) \<in> par_rel ns" "(z, s) \<in> (par_rel ns)\<^sup>*" by blast
    from par_relD[OF z(1)] have pz: "parent (ns ! c) = Some z" by simp
    from F(9)[OF pz] have hz: "?h + 2 \<le> height (ns ! z)" by blast
    from anc_height_le[OF C(1,4) z(2)] hz have hs: "?h + 2 \<le> height (ns ! s)" by simp
    have ls: "(last ls, s) \<in> (par_rel ns)\<^sup>*" using climb_rel_sub[OF C(9)] cs by simp
    note SL = spine_levelsD[OF C(14) C(7) ls]
    from C(5) C(7) ls have rs: "right (ns ! s) = None" unfolding spine_ok_def by blast
    have "left (ns ! c) \<noteq> Some s"
    proof
      assume "left (ns ! c) = Some s"
      from cand_sibling(3)[OF C(1,2,8) this] rs show False by simp
    qed
    with sl(1) sc c(1) have e: "?n ! s = ns ! s" by (simp add: linked_other)
    have sm: "lev ?n k = lev ns k" if "height (ns ! s) \<le> k" for k
      using that hs h0 same[of k] by simp
    show ?thesis
    proof (cases "parent (ns ! s)")
      case None
      have "lev ?n k = []" if "height (ns ! s) < k" for k
        using that SL(3)[OF None that] sm[of k] by simp
      with SL(1,2) sm[of "height (ns ! s)"] show ?thesis
        unfolding spine_node_ok_def by (simp add: e None)
    next
      case (Some ps)
      from ptrs_okD(3)[OF C(1) sl(1) Some] have psl: "ps < length ns" .
      have hps: "height (?n ! ps) = height (ns ! ps)" using linked_height_old[OF c(1) psl] .
      have 1: "even (length (lev ?n k))" if "height (ns ! s) < k" "k < height (ns ! ps) - 1" for k
        using that SL(4)[OF Some that] sm[of k] by simp
      have 2: "\<exists>x. left (ns ! s) = Some x \<and> lev ?n (height (ns ! ps) - 1) \<noteq> [] \<and> last (lev ?n (height (ns ! ps) - 1)) = x"
        if "height (ns ! s) < height (ns ! ps) - 1"
        using that SL(5)[OF Some that] sm[of "height (ns ! ps) - 1"] by simp
      from SL(1,2) sm[of "height (ns ! s)"] 1 2 show ?thesis
        unfolding spine_node_ok_def by (simp add: e Some hps)
    qed
  qed
qed

lemma level_inv_Add_shape:
  assumes w: "well_formed t" and li: "level_inv t" and ne: "leaves t \<noteq> []"
    and c: "cand_ok (nodes t) c" "(last (leaves t), c) \<in> (climb_rel (nodes t))\<^sup>*"
  shows "level_inv (Add_shape t lf c)"
proof -
  note W = well_formedD[OF w]
  from li have L: "leaves t = lev (nodes t) 0" "levels_ok (nodes t)" "inner_ok (nodes t)"
    "mono_ok (nodes t)" "spine_levels (nodes t) (leaves t)"
    unfolding level_inv_def by blast+
  have ctx: "add_ctx (nodes t) (leaves t) c"
    unfolding add_ctx_def
    by (intro conjI W(1) W(2) W(3) W(4) W(8) W(9) ne c L)
  have cl: "c < length (nodes t)" using c(1) by (simp add: cand_ok_def)
  have h0: "0 \<le> height (nodes t ! c)" using heights_okD(1)[OF W(4) cl] .
  have "leaves t @ [length (nodes t)] = lev (linked (nodes t) c lf) 0"
    using L(1) h0 by (simp add: lev_linked[OF cl])
  with levels_ok_linked[OF ctx, of lf] inner_ok_linked[OF ctx, of lf] mono_ok_linked[OF ctx, of lf]
    spine_levels_linked[OF ctx, of lf]
  show ?thesis by (simp add: level_inv_def Add_shape_def)
qed

lemma same_shape_lev:
  assumes "same_shape ns ns'"
  shows "lev ns' k = lev ns k" "rchild ns' k x = rchild ns k x" "paired ns' k xs = paired ns k xs"
proof -
  note D = same_shapeD[OF assms]
  show "lev ns' k = lev ns k" by (simp add: lev_def D)
  show r: "rchild ns' k x = rchild ns k x" for x by (simp add: rchild_def D)
  show "paired ns' k xs = paired ns k xs"
  proof (induction xs rule: induct_list012)
    case 1
    show ?case by simp
  next
    case (2 x)
    show ?case by (simp add: r)
  next
    case (3 x y zs)
    then show ?case by (simp add: r D)
  qed
qed

lemma same_shape_level:
  assumes "same_shape ns ns'"
  shows "levels_ok ns' = levels_ok ns" "inner_ok ns' = inner_ok ns" "mono_ok ns' = mono_ok ns"
        "spine_levels ns' ls = spine_levels ns ls"
proof -
  note D = same_shapeD[OF assms] and L = same_shape_lev[OF assms] and I = same_shape_invs[OF assms]
  show "levels_ok ns' = levels_ok ns" by (simp add: levels_ok_def L)
  show "inner_ok ns' = inner_ok ns" by (simp add: inner_ok_def D)
  show "mono_ok ns' = mono_ok ns" by (simp add: mono_ok_def D)
  have "spine_node_ok ns' s = spine_node_ok ns s" for s
    by (simp add: spine_node_ok_def D L cong: option.case_cong)
  then show "spine_levels ns' ls = spine_levels ns ls" by (simp add: spine_levels_def I)
qed

lemma level_inv_cong:
  assumes "level_inv t" "same_shape (nodes t) (nodes t')" "leaves t' = leaves t"
  shows "level_inv t'"
  using assms(1) unfolding level_inv_def same_shape_level[OF assms(2)] same_shape_lev[OF assms(2)] assms(3)
  by blast

lemma level_inv_new: "NewDynTree initialCap = Inr t \<Longrightarrow> level_inv t"
  by (auto simp: NewDynTree_def level_inv_def lev_def levels_ok_def inner_ok_def mono_ok_def
      spine_levels_def split: if_splits)

lemma level_inv_first:
  "level_inv (t\<lparr>nodes := [leaf_node lf], leaves := [0], root := Some 0\<rparr>)"
proof -
  have l: "lev [leaf_node lf] k = (if k = 0 then [0] else [])" for k
    by (simp add: lev_def leaf_node_def)
  have q0: "(0, q) \<in> (par_rel [leaf_node lf])\<^sup>* \<Longrightarrow> q = 0" for q
    by (erule converse_rtranclE) (simp_all add: par_rel_def leaf_node_def)
  have "spine_node_ok [leaf_node lf] 0"
    unfolding spine_node_ok_def l by (simp add: leaf_node_def)
  then have "spine_levels [leaf_node lf] [0]"
    unfolding spine_levels_def using q0 by auto
  moreover have "levels_ok [leaf_node lf]"
    unfolding levels_ok_def l by (simp add: rchild_def leaf_node_def)
  moreover have "inner_ok [leaf_node lf]" by (simp add: inner_ok_def leaf_node_def)
  moreover have "mono_ok [leaf_node lf]" by (simp add: mono_ok_def)
  ultimately show ?thesis by (simp add: level_inv_def l)
qed

text \<open>The result of \<open>Add\<close> on a well-formed tree, in terms of the candidate found by the climb.\<close>

lemma Add_result:
  assumes w: "well_formed t" and ne: "leaves t \<noteq> []"
  shows "\<exists>c ns'. Add sha t lf = Some ((Add_shape t lf c)\<lparr>nodes := ns'\<rparr>, None) \<and>
           cand_ok (nodes t) c \<and> (last (leaves t), c) \<in> (climb_rel (nodes t))\<^sup>* \<and>
           same_shape (linked (nodes t) c lf) ns' \<and>
           (paused t \<longrightarrow> ns' = linked (nodes t) c lf) \<and>
           (\<forall>q. q < length ns' \<longrightarrow> height (ns' ! q) = 0 \<longrightarrow> hash (ns' ! q) = hash (linked (nodes t) c lf ! q)) \<and>
           (\<not> paused t \<longrightarrow> hashes_ok_except sha (nodes t) {} \<longrightarrow> hashes_ok_except sha ns' {})"
proof -
  let ?ns = "nodes t"
  note W = well_formedD[OF w]
  from Add_climb_cand_chain[OF w ne, of lf] obtain c where
    c: "Add_climb (?ns @ [leaf_node lf]) (last (leaves t)) = Some (Inr c)" "cand_ok ?ns c"
       "(last (leaves t), c) \<in> (climb_rel ?ns)\<^sup>*" by blast
  have cp: "(last (leaves t), c) \<in> (par_rel ?ns)\<^sup>*" using climb_rel_sub[OF c(3)] .
  have cl: "c < length ?ns" using c(2) by (simp add: cand_ok_def)
  note U = Add_unfold[OF w ne c(1,2), of sha]
  note WS = well_formed_Add_shape[OF w ne c(2) cp, of lf]
  let ?n = "linked ?ns c lf"
  have nS: "nodes (Add_shape t lf c) = ?n" by (simp add: Add_shape_def)
  show ?thesis
  proof (cases "paused t")
    case True
    with U have "Add sha t lf = Some ((Add_shape t lf c)\<lparr>nodes := ?n\<rparr>, None)"
      by (simp add: Add_shape_def)
    with c(2,3) True show ?thesis by (auto simp: same_shape_refl)
  next
    case np: False
    note WL = well_formedD[OF WS, unfolded nS]
    have bnd: "\<forall>i<length ?n. height (?n ! i) \<le> tree_height (Add_shape t lf c)" using WL(5) .
    have lc: "c < length ?n" "parent (?n ! c) = Some (Suc (length ?ns))" "right (?n ! c) = Some (length ?ns)"
      "hash (?ns ! c) = hash (?n ! c)" "lf = hash (?n ! length ?ns)"
      using cl by (simp_all add: length_linked linked_c linked_a)
    from rehash_up[OF WL(1,2,3,4) bnd lc, of sha] obtain ns' where
      ns': "rehash sha ?n (Some (Suc (length ?ns))) (hash (?ns ! c)) lf True = Some (ns', None)"
        "same_shape ?n ns'"
        "\<And>q. (Suc (length ?ns), q) \<notin> (par_rel ?n)\<^sup>* \<Longrightarrow> hash (ns' ! q) = hash (?n ! q)"
      by blast
    have A: "Add sha t lf = Some ((Add_shape t lf c)\<lparr>nodes := ns'\<rparr>, None)"
      using U np ns'(1) by simp
    have hb: "height (?n ! Suc (length ?ns)) = height (?ns ! c) + 1" using cl by (simp add: linked_b)
    have low: "(Suc (length ?ns), q) \<notin> (par_rel ?n)\<^sup>*" if "height (?n ! q) = 0" for q
    proof
      assume "(Suc (length ?ns), q) \<in> (par_rel ?n)\<^sup>*"
      from anc_height_le[OF WL(1,4) this] hb that heights_okD(1)[OF W(4) cl] show False by simp
    qed
    have h2: "hash (ns' ! q) = hash (?n ! q)" if "height (ns' ! q) = 0" for q
      using ns'(3)[OF low, of q] that same_shapeD(5)[OF ns'(2), of q] by simp
    have h3: "hashes_ok_except sha ns' {}" if ok: "hashes_ok_except sha ?ns {}"
    proof -
      from rehash_up_ok[OF WL(1,2,3,4) bnd lc hashes_ok_linked[OF W(1,2) c(2) ok]] ns'(1)
      show ?thesis by auto
    qed
    from A c(2,3) ns'(2) h2 h3 np show ?thesis by blast
  qed
qed

lemma level_inv_Add:
  assumes w: "well_formed t" and li: "level_inv t" and a: "Add sha t lf = Some (t', e)"
  shows "level_inv t'"
proof (cases "leaves t = []")
  case True
  from Add_empty[OF w True, of sha lf] a level_inv_first[of lf t] show ?thesis by simp
next
  case False
  from Add_result[OF w False, of sha lf] a obtain c ns' where
    c: "t' = (Add_shape t lf c)\<lparr>nodes := ns'\<rparr>" "cand_ok (nodes t) c"
       "(last (leaves t), c) \<in> (climb_rel (nodes t))\<^sup>*" "same_shape (linked (nodes t) c lf) ns'"
    by auto
  have "same_shape (nodes (Add_shape t lf c)) (nodes t')" using c(1,4) by (simp add: Add_shape_def)
  moreover have "leaves t' = leaves (Add_shape t lf c)" using c(1) by simp
  ultimately show ?thesis using level_inv_Add_shape[OF w li False c(2,3), of lf]
    by (rule level_inv_cong[rotated])
qed

lemma not_rchild_right:
  assumes p: "ptrs_ok ns" and s: "sib_ok ns" and x: "x < length ns" and nr: "\<not> rchild ns k x"
    and pp: "parent (ns ! x) = Some q" and hq: "height (ns ! q) = k + 1"
  shows "\<exists>r. right (ns ! x) = Some r \<and> r < length ns"
proof -
  from nr pp hq have "left (ns ! x) = None" by (simp add: rchild_def)
  with sib_okD(4)[OF s p x] pp have "right (ns ! x) \<noteq> None" by simp
  then obtain r where r: "right (ns ! x) = Some r" by blast
  with ptrs_okD(2)[OF p x r] show ?thesis by simp
qed

lemma recompute_node_spec:
  assumes p: "ptrs_ok ns" and s: "sib_ok ns" and x: "x < length ns" and nr: "\<not> rchild ns k x"
  shows "recompute_node sha ns k x top_row = Some (row_step sha ns k x, top_row @ up_parent ns k x, None)"
proof (cases "parent (ns ! x)")
  case None
  with x show ?thesis by (simp add: recompute_node_cases row_step_def up_parent_def)
next
  case (Some q)
  from ptrs_okD(3)[OF p x Some] have q: "q < length ns" .
  show ?thesis
  proof (cases "height (ns ! q) = k + 1")
    case True
    from not_rchild_right[OF p s x nr Some True] obtain r where "right (ns ! x) = Some r" "r < length ns"
      by blast
    with x q Some True show ?thesis by (simp add: recompute_node_cases row_step_def up_parent_def)
  next
    case False
    with x q Some show ?thesis by (simp add: recompute_node_cases row_step_def up_parent_def)
  qed
qed

lemma row_step_shape: "same_shape ns (row_step sha ns k x)"
  by (simp add: row_step_def same_shape_refl same_shape_sethash split: option.split)

lemma row_step_hash_other:
  assumes "parent (ns ! x) \<noteq> Some q \<or> height (ns ! q) \<noteq> k + 1"
  shows "hash (row_step sha ns k x ! q) = hash (ns ! q)"
  using assms by (auto simp: row_step_def nth_list_update_if split: option.split)

lemma row_step_hash_parent:
  assumes "parent (ns ! x) = Some q" "height (ns ! q) = k + 1" "right (ns ! x) = Some r" "q < length ns"
  shows "hash (row_step sha ns k x ! q) = sha (hash (ns ! x) @ hash (ns ! r))"
  unfolding row_step_def using assms by (simp add: nth_list_update_if)

lemma same_shape_tops:
  assumes "same_shape ns ns'"
  shows "tops ns' k xs = tops ns k xs"
proof -
  have u: "up_parent ns' k x = up_parent ns k x" for x
    by (simp add: up_parent_def same_shapeD[OF assms] cong: option.case_cong)
  show ?thesis by (induction xs rule: induct_list012) (simp_all add: u)
qed

lemma up_parent_mem: "q \<in> set (up_parent ns k x) \<longleftrightarrow> parent (ns ! x) = Some q \<and> height (ns ! q) = k + 1"
  by (cases "parent (ns ! x)") (auto simp: up_parent_def)

lemma tops_mem:
  "q \<in> set (tops ns k xs) \<Longrightarrow> \<exists>x\<in>set xs. parent (ns ! x) = Some q \<and> height (ns ! q) = k + 1 \<and> \<not> rchild ns k x"
  if "paired ns k xs"
  using that
proof (induction xs rule: induct_list012)
  case 1
  then show ?case by simp
next
  case (2 x)
  then show ?case by (simp add: up_parent_mem)
next
  case (3 x y zs)
  then show ?case by (auto simp: up_parent_mem)
qed

lemma left_child_low:
  assumes p: "ptrs_ok ns" and s: "sib_ok ns" and h: "heights_ok ns"
    and l: "l < length ns" "height (ns ! l) = k" "right (ns ! l) = Some r"
  shows "r < length ns" "height (ns ! r) \<le> k" "height (ns ! l) \<noteq> k + 1" "height (ns ! r) \<noteq> k + 1"
proof -
  from sib_okD(2)[OF s p l(1,3)] have r: "r < length ns" "left (ns ! r) = Some l" by simp_all
  from heights_okD(4)[OF h r] l(2) show "height (ns ! r) \<le> k" by simp
  then show "height (ns ! r) \<noteq> k + 1" by simp
  show "r < length ns" by fact
  show "height (ns ! l) \<noteq> k + 1" using l(2) by simp
qed

lemma recompute_row_spec:
  assumes p: "ptrs_ok ns" and s: "sib_ok ns" and kd: "kids_ok ns" and h: "heights_ok ns"
    and pr: "paired ns k xs" and xs: "\<forall>x\<in>set xs. x < length ns \<and> height (ns ! x) = k"
  shows "\<exists>ns'. recompute_row sha ns k xs top_row = Some (ns', top_row @ tops ns k xs, None) \<and>
           same_shape ns ns' \<and>
           (\<forall>q. q \<notin> set (tops ns k xs) \<longrightarrow> hash (ns' ! q) = hash (ns ! q)) \<and>
           (\<forall>l\<in>set xs. \<forall>q r. parent (ns ! l) = Some q \<longrightarrow> right (ns ! l) = Some r \<longrightarrow>
                hash (ns' ! q) = sha (hash (ns ! l) @ hash (ns ! r)))"
  using assms
proof (induction xs arbitrary: ns top_row rule: induct_list012)
  case 1
  then show ?case by (simp add: same_shape_refl)
next
  case (2 x)
  from 2(5,6) have x: "x < length ns" "height (ns ! x) = k" "\<not> rchild ns k x" by simp_all
  note N = recompute_node_spec[OF 2(1,2) x(1,3), of sha top_row]
  have a: "hash (row_step sha ns k x ! q) = hash (ns ! q)" if "q \<notin> set (tops ns k [x])" for q
    using that by (intro row_step_hash_other) (simp add: up_parent_mem)
  have b: "hash (row_step sha ns k x ! q) = sha (hash (ns ! x) @ hash (ns ! r))"
    if "parent (ns ! x) = Some q" "right (ns ! x) = Some r" for q r
  proof -
    from heights_okD(3)[OF 2(4) x(1) that(1)] that(2) x(2) have "height (ns ! q) = k + 1" by simp
    from row_step_hash_parent[OF that(1) this that(2) ptrs_okD(3)[OF 2(1) x(1) that(1)]] show ?thesis .
  qed
  from N a b row_step_shape[of ns sha k x] show ?case by simp
next
  case (3 x y zs)
  let ?n1 = "row_step sha ns k x"
  note p = 3(3) and s = 3(4) and kd = 3(5) and h = 3(6)
  from 3(7) have pr: "\<not> rchild ns k x" "rchild ns k y" "paired ns k zs" by simp_all
  from 3(8) have x: "x < length ns" "height (ns ! x) = k" and y: "y < length ns"
    and zs: "\<forall>z\<in>set zs. z < length ns \<and> height (ns ! z) = k" by simp_all
  note N = recompute_node_spec[OF p s x(1) pr(1), of sha top_row]
  note S1 = row_step_shape[of ns sha k x]
  note D1 = same_shapeD[OF S1] and I1 = same_shape_invs[OF S1]
  have low: "hash (?n1 ! q) = hash (ns ! q)" if "height (ns ! q) \<noteq> k + 1" for q
    using that by (intro row_step_hash_other) simp
  have zs1: "\<forall>z\<in>set zs. z < length ?n1 \<and> height (?n1 ! z) = k" using zs by (simp add: D1)
  from 3(1)[of ?n1 "top_row @ up_parent ns k x", unfolded I1 same_shape_lev[OF S1] same_shape_tops[OF S1],
      OF p s kd h pr(3) zs1]
  obtain ns' where
    ns': "recompute_row sha ?n1 k zs (top_row @ up_parent ns k x) = Some (ns', (top_row @ up_parent ns k x) @ tops ns k zs, None)"
      "same_shape ?n1 ns'"
      "\<And>q. q \<notin> set (tops ns k zs) \<Longrightarrow> hash (ns' ! q) = hash (?n1 ! q)"
      "\<And>l q r. l \<in> set zs \<Longrightarrow> parent (?n1 ! l) = Some q \<Longrightarrow> right (?n1 ! l) = Some r \<Longrightarrow>
          hash (ns' ! q) = sha (hash (?n1 ! l) @ hash (?n1 ! r))"
    by blast
  have c1: "recompute_row sha ns k (x # y # zs) top_row = Some (ns', top_row @ tops ns k (x # y # zs), None)"
    using N ns'(1) by simp
  have c2: "same_shape ns ns'" using S1 ns'(2) by (rule same_shape_trans)
  have c3: "hash (ns' ! q) = hash (ns ! q)" if "q \<notin> set (tops ns k (x # y # zs))" for q
  proof -
    from that have "q \<notin> set (up_parent ns k x)" "q \<notin> set (tops ns k zs)" by simp_all
    from ns'(3)[OF this(2)] row_step_hash_other[of ns x q k sha] this(1) show ?thesis
      by (simp add: up_parent_mem)
  qed
  have inz: "hash (ns' ! q) = sha (hash (ns ! l) @ hash (ns ! r))"
    if "l \<in> set zs" "parent (ns ! l) = Some q" "right (ns ! l) = Some r" for l q r
  proof -
    from zs that(1) have l: "l < length ns" "height (ns ! l) = k" by simp_all
    note L = left_child_low[OF p s h l that(3)]
    from ns'(4)[OF that(1), of q r] that(2,3) have "hash (ns' ! q) = sha (hash (?n1 ! l) @ hash (?n1 ! r))"
      by (simp add: D1)
    with low[OF L(3)] low[OF L(4)] show ?thesis by simp
  qed
  have c4: "hash (ns' ! q) = sha (hash (ns ! l) @ hash (ns ! r))"
    if "l \<in> set (x # y # zs)" "parent (ns ! l) = Some q" "right (ns ! l) = Some r" for l q r
  proof -
    from that(1) consider "l = x" | "l = y" | "l \<in> set zs" by auto
    then show ?thesis
    proof cases
      case 1
      from heights_okD(3)[OF h x(1), of q] that(2,3) x(2) 1 have hq: "height (ns ! q) = k + 1" by simp
      from ptrs_okD(3)[OF p x(1), of q] that(2) 1 have ql: "q < length ns" by simp
      show ?thesis
      proof (cases "q \<in> set (tops ns k zs)")
        case True
        from tops_mem[OF pr(3) True] obtain x' where
          x': "x' \<in> set zs" "parent (ns ! x') = Some q" "\<not> rchild ns k x'" by blast
        from zs x'(1) have x'l: "x' < length ns" by simp
        from not_rchild_right[OF p s x'l x'(3,2) hq] obtain r' where r': "right (ns ! x') = Some r'" by blast
        from left_child_unique[OF s p kd x(1) that(2,3)[unfolded 1] x'l x'(2) r'] have "x' = x" "r' = r"
          by simp_all
        with x'(1) 1 have "l \<in> set zs" by simp
        from inz[OF this that(2,3)] show ?thesis .
      next
        case False
        from ns'(3)[OF False] row_step_hash_parent[of ns x q k r sha] that(2,3) 1 hq ql
        show ?thesis by simp
      qed
    next
      case 2
      from pr(2) have "left (ns ! y) \<noteq> None" by (simp add: rchild_def)
      with sib_okD(3)[OF s p y] that(3) 2 show ?thesis by simp
    next
      case 3
      from inz[OF this that(2,3)] show ?thesis .
    qed
  qed
  from c1 c2 c3 c4 show ?case by blast
qed

lemma rchild_no_right:
  assumes "ptrs_ok ns" "sib_ok ns" "y < length ns" "rchild ns k y"
  shows "right (ns ! y) = None"
proof -
  from assms(4) have "left (ns ! y) \<noteq> None" by (simp add: rchild_def)
  with sib_okD(3)[OF assms(2,1,3)] show ?thesis by simp
qed

lemma tops_mem_conv:
  assumes p: "ptrs_ok ns" and s: "sib_ok ns" and h: "heights_ok ns"
  shows "paired ns k xs \<Longrightarrow> \<forall>x\<in>set xs. x < length ns \<and> height (ns ! x) = k \<Longrightarrow>
         l \<in> set xs \<Longrightarrow> parent (ns ! l) = Some q \<Longrightarrow> right (ns ! l) = Some r \<Longrightarrow> q \<in> set (tops ns k xs)"
proof (induction xs rule: induct_list012)
  case 1
  then show ?case by simp
next
  case (2 x)
  from 2 have x: "x < length ns" "height (ns ! x) = k" "l = x" by simp_all
  from heights_okD(3)[OF h x(1), of q] 2(4,5) x(2,3) have "height (ns ! q) = k + 1" by simp
  with 2(4) x(3) show ?case by (simp add: up_parent_mem)
next
  case (3 x y zs)
  from 3(3) have pr: "\<not> rchild ns k x" "rchild ns k y" "paired ns k zs" by simp_all
  from 3(4) have x: "x < length ns" "height (ns ! x) = k" and y: "y < length ns"
    and zs: "\<forall>z\<in>set zs. z < length ns \<and> height (ns ! z) = k" by simp_all
  from 3(5) consider "l = x" | "l = y" | "l \<in> set zs" by auto
  then show ?case
  proof cases
    case 1
    from heights_okD(3)[OF h x(1), of q] 3(6,7) x(2) 1 have "height (ns ! q) = k + 1" by simp
    with 3(6) 1 show ?thesis by (simp add: up_parent_mem)
  next
    case 2
    from rchild_no_right[OF p s y pr(2)] 3(7) 2 show ?thesis by simp
  next
    case 3
    from "3.IH"(1)[OF pr(3) zs 3 "3.prems"(4,5)] show ?thesis by simp
  qed
qed

lemma up_parent_sorted: "sorted_wrt (<) (up_parent ns k x)"
  by (cases "parent (ns ! x)") (simp_all add: up_parent_def)

lemma tops_sorted:
  assumes p: "ptrs_ok ns" and s: "sib_ok ns" and m: "mono_ok ns"
  shows "paired ns k xs \<Longrightarrow> \<forall>x\<in>set xs. x < length ns \<and> height (ns ! x) = k \<Longrightarrow>
         sorted_wrt (<) xs \<Longrightarrow> sorted_wrt (<) (tops ns k xs)"
proof (induction xs rule: induct_list012)
  case 1
  then show ?case by simp
next
  case (2 x)
  then show ?case by (simp add: up_parent_sorted)
next
  case (3 x y zs)
  from 3(3) have pr: "\<not> rchild ns k x" "rchild ns k y" "paired ns k zs" by simp_all
  from 3(4) have x: "x < length ns" "height (ns ! x) = k"
    and zs: "\<forall>z\<in>set zs. z < length ns \<and> height (ns ! z) = k" by simp_all
  from 3(5) have so: "sorted_wrt (<) zs" "\<forall>z\<in>set zs. x < z" by auto
  have "a < b" if a: "a \<in> set (up_parent ns k x)" and b: "b \<in> set (tops ns k zs)" for a b
  proof -
    from a have pa: "parent (ns ! x) = Some a" "height (ns ! a) = k + 1" by (simp_all add: up_parent_mem)
    from not_rchild_right[OF p s x(1) pr(1) pa] obtain r where r: "right (ns ! x) = Some r" by blast
    from tops_mem[OF pr(3) b] obtain x' where
      x': "x' \<in> set zs" "parent (ns ! x') = Some b" "height (ns ! b) = k + 1" "\<not> rchild ns k x'" by blast
    from zs x'(1) have x'l: "x' < length ns" "height (ns ! x') = k" by simp_all
    from not_rchild_right[OF p s x'l(1) x'(4,2,3)] obtain r' where r': "right (ns ! x') = Some r'" by blast
    from so(2) x'(1) have lt: "x < x'" by simp
    from m[unfolded mono_ok_def, rule_format, OF x(1) x'l(1), of a b] lt x(2) x'l(2) r r' pa(1) x'(2)
    show ?thesis by simp
  qed
  with "3.IH"(1)[OF pr(3) zs so(1)] show ?case
    by (simp add: sorted_wrt_append up_parent_sorted)
qed

lemma tops_lev:
  assumes p: "ptrs_ok ns" and s: "sib_ok ns" and h: "heights_ok ns"
    and lv: "levels_ok ns" and io: "inner_ok ns" and m: "mono_ok ns" and k: "0 \<le> k"
  shows "tops ns k (lev ns k) = lev ns (k + 1)"
proof -
  have pr: "paired ns k (lev ns k)" using lv by (simp add: levels_ok_def)
  have el: "\<forall>x\<in>set (lev ns k). x < length ns \<and> height (ns ! x) = k" by (simp add: lev_mem)
  have so: "sorted_wrt (<) (lev ns k)" using lev_sorted[of ns k] by (simp add: strict_sorted_iff)
  from tops_sorted[OF p s m pr el so] have st: "sorted (tops ns k (lev ns k))" "distinct (tops ns k (lev ns k))"
    by (simp_all add: strict_sorted_iff)
  have "set (tops ns k (lev ns k)) = set (lev ns (k + 1))"
  proof (intro set_eqI iffI)
    fix q assume "q \<in> set (tops ns k (lev ns k))"
    from tops_mem[OF pr this] obtain x where
      x: "x \<in> set (lev ns k)" "parent (ns ! x) = Some q" "height (ns ! q) = k + 1" by blast
    from x(1) have "x < length ns" by (simp add: lev_mem)
    from ptrs_okD(3)[OF p this x(2)] x(3) show "q \<in> set (lev ns (k + 1))" by (simp add: lev_mem)
  next
    fix q assume "q \<in> set (lev ns (k + 1))"
    then have q: "q < length ns" "height (ns ! q) = k + 1" by (simp_all add: lev_mem)
    with k have "height (ns ! q) \<noteq> 0" by simp
    from io[unfolded inner_ok_def, rule_format, OF q(1) this] obtain l r where
      l: "l < length ns" "parent (ns ! l) = Some q" "right (ns ! l) = Some r" by auto
    from heights_okD(3)[OF h l(1,2)] l(3) q(2) have "height (ns ! l) = k" by simp
    with l(1) have "l \<in> set (lev ns k)" by (simp add: lev_mem)
    from tops_mem_conv[OF p s h pr el this l(2,3)] show "q \<in> set (tops ns k (lev ns k))" .
  qed
  from sorted_distinct_set_unique[OF st lev_sorted this] show ?thesis .
qed

lemma levels_down:
  assumes h: "heights_ok ns" and io: "inner_ok ns"
  shows "q < length ns \<Longrightarrow> 0 \<le> k \<Longrightarrow> k \<le> height (ns ! q) \<Longrightarrow> lev ns k \<noteq> []"
proof (induction "nat (height (ns ! q) - k)" arbitrary: q)
  case 0
  then have "q \<in> set (lev ns k)" by (simp add: lev_mem)
  then show ?case by auto
next
  case (Suc n)
  then have "height (ns ! q) \<noteq> 0" by simp
  from io[unfolded inner_ok_def, rule_format, OF Suc(3) this] obtain l r where
    l: "l < length ns" "parent (ns ! l) = Some q" "right (ns ! l) = Some r" by auto
  from heights_okD(3)[OF h l(1,2)] l(3) have hl: "height (ns ! q) = height (ns ! l) + 1" by simp
  with Suc(2) have "n = nat (height (ns ! l) - k)" by simp
  from Suc(1)[OF this l(1) Suc(4)] hl Suc(2) show ?case by simp
qed

lemma hashed_upto_step:
  assumes p: "ptrs_ok ns" and s: "sib_ok ns" and kd: "kids_ok ns" and h: "heights_ok ns"
    and lv: "levels_ok ns" and hu: "hashed_upto sha ns k"
  shows "\<exists>ns'. recompute_row sha ns k (lev ns k) [] = Some (ns', tops ns k (lev ns k), None) \<and>
           same_shape ns ns' \<and> hashed_upto sha ns' (k + 1) \<and>
           (\<forall>q. height (ns ! q) \<noteq> k + 1 \<longrightarrow> hash (ns' ! q) = hash (ns ! q))"
proof -
  have pr: "paired ns k (lev ns k)" using lv by (simp add: levels_ok_def)
  have el: "\<forall>x\<in>set (lev ns k). x < length ns \<and> height (ns ! x) = k" by (simp add: lev_mem)
  from recompute_row_spec[OF p s kd h pr el, of sha "[]"] obtain ns' where
    ns': "recompute_row sha ns k (lev ns k) [] = Some (ns', tops ns k (lev ns k), None)"
      "same_shape ns ns'"
      "\<And>q. q \<notin> set (tops ns k (lev ns k)) \<Longrightarrow> hash (ns' ! q) = hash (ns ! q)"
      "\<And>l q r. l \<in> set (lev ns k) \<Longrightarrow> parent (ns ! l) = Some q \<Longrightarrow> right (ns ! l) = Some r \<Longrightarrow>
          hash (ns' ! q) = sha (hash (ns ! l) @ hash (ns ! r))"
    by auto
  note D = same_shapeD[OF ns'(2)]
  have keep: "hash (ns' ! q) = hash (ns ! q)" if "height (ns ! q) \<noteq> k + 1" for q
  proof (rule ns'(3))
    show "q \<notin> set (tops ns k (lev ns k))"
    proof
      assume "q \<in> set (tops ns k (lev ns k))"
      from tops_mem[OF pr this] that show False by blast
    qed
  qed
  have "hashed_upto sha ns' (k + 1)"
    unfolding hashed_upto_def
  proof (intro allI impI, elim conjE)
    fix l q r
    assume l: "l < length ns'" "parent (ns' ! l) = Some q" "right (ns' ! l) = Some r" "height (ns' ! q) \<le> k + 1"
    then have l': "l < length ns" "parent (ns ! l) = Some q" "right (ns ! l) = Some r" "height (ns ! q) \<le> k + 1"
      by (simp_all add: D)
    from heights_okD(3)[OF h l'(1,2)] l'(3) have hq: "height (ns ! q) = height (ns ! l) + 1" by simp
    note L = left_child_low[OF p s h l'(1) refl l'(3)]
    have kl: "hash (ns' ! l) = hash (ns ! l)" "hash (ns' ! r) = hash (ns ! r)"
      using keep[of l] keep[of r] L(2) l'(4) hq by simp_all
    show "hash (ns' ! q) = sha (hash (ns' ! l) @ hash (ns' ! r))"
    proof (cases "height (ns ! q) = k + 1")
      case True
      with hq l'(1) have "l \<in> set (lev ns k)" by (simp add: lev_mem)
      from ns'(4)[OF this l'(2,3)] kl show ?thesis by simp
    next
      case False
      with l'(4) have "height (ns ! q) \<le> k" by simp
      with hu[unfolded hashed_upto_def, rule_format, of l q r] l' have "hash (ns ! q) = sha (hash (ns ! l) @ hash (ns ! r))"
        by simp
      with keep[OF False] kl show ?thesis by simp
    qed
  qed
  with ns'(1,2) keep show ?thesis by blast
qed

lemma recompute_loop_spec:
  assumes "ptrs_ok ns" "sib_ok ns" "kids_ok ns" "heights_ok ns" "levels_ok ns" "inner_ok ns" "mono_ok ns"
    and "\<forall>i<length ns. height (ns ! i) \<le> H" and "0 \<le> k" and "hashed_upto sha ns k"
  shows "\<exists>ns'. recompute_loop sha ns (lev ns k) = Some (ns', None) \<and> same_shape ns ns' \<and>
           hashes_ok_except sha ns' {} \<and> (\<forall>q. height (ns ! q) = 0 \<longrightarrow> hash (ns' ! q) = hash (ns ! q))"
  using assms
proof (induction "nat (H + 1 - k)" arbitrary: ns k rule: less_induct)
  case less
  note p = less(2) and s = less(3) and kd = less(4) and h = less(5) and lv = less(6) and io = less(7)
    and m = less(8) and bnd = less(9) and k = less(10) and hu = less(11)
  show ?case
  proof (cases "lev ns k = []")
    case True
    have r: "recompute_loop sha ns (lev ns k) = Some (ns, None)"
      by (subst recompute_loop.simps) (simp add: True)
    have "hashes_ok_except sha ns {}"
      unfolding hashes_ok_except_def
    proof (intro allI impI, elim conjE)
      fix l q r
      assume l: "l < length ns" "parent (ns ! l) = Some q" "right (ns ! l) = Some r"
      from ptrs_okD(3)[OF p l(1,2)] have q: "q < length ns" .
      have "height (ns ! q) \<le> k"
      proof (rule ccontr)
        assume "\<not> height (ns ! q) \<le> k"
        then have "k \<le> height (ns ! q)" by simp
        from levels_down[OF h io q k this] True show False by simp
      qed
      with hu[unfolded hashed_upto_def, rule_format, of l q r] l
      show "hash (ns ! q) = sha (hash (ns ! l) @ hash (ns ! r))" by simp
    qed
    with r show ?thesis by (auto simp: same_shape_refl)
  next
    case False
    then have "lev ns k ! 0 \<in> set (lev ns k)" by simp
    then have x0: "lev ns k ! 0 < length ns" "height (ns ! (lev ns k ! 0)) = k" by (simp_all add: lev_mem)
    from bnd x0 have kH: "k \<le> H" by auto
    from hashed_upto_step[OF p s kd h lv hu] obtain ns1 where
      ns1: "recompute_row sha ns k (lev ns k) [] = Some (ns1, tops ns k (lev ns k), None)"
        "same_shape ns ns1" "hashed_upto sha ns1 (k + 1)"
        "\<And>q. height (ns ! q) \<noteq> k + 1 \<Longrightarrow> hash (ns1 ! q) = hash (ns ! q)"
      by blast
    note D = same_shapeD[OF ns1(2)] and I = same_shape_invs[OF ns1(2)] and L = same_shape_level[OF ns1(2)]
    have tl: "tops ns k (lev ns k) = lev ns1 (k + 1)"
      using tops_lev[OF p s h lv io m k] by (simp add: same_shape_lev[OF ns1(2)])
    have me: "nat (H + 1 - (k + 1)) < nat (H + 1 - k)" using kH by simp
    have b1: "\<forall>i<length ns1. height (ns1 ! i) \<le> H" using bnd by (simp add: D)
    have k1: "0 \<le> k + 1" using k by simp
    from less(1)[OF me p[folded I(1)] s[folded I(2)] kd[folded I(3)] h[folded I(4)]
        lv[folded L(1)] io[folded L(2)] m[folded L(3)] b1 k1 ns1(3)]
    obtain ns' where
      ns': "recompute_loop sha ns1 (lev ns1 (k + 1)) = Some (ns', None)" "same_shape ns1 ns'"
        "hashes_ok_except sha ns' {}" "\<And>q. height (ns1 ! q) = 0 \<Longrightarrow> hash (ns' ! q) = hash (ns1 ! q)"
      by blast
    have r: "recompute_loop sha ns (lev ns k) = Some (ns', None)"
      by (subst recompute_loop.simps) (simp add: False deref_def x0 ns1(1) tl ns'(1))
    have "hash (ns' ! q) = hash (ns ! q)" if "height (ns ! q) = 0" for q
      using ns'(4)[of q] ns1(4)[of q] that k by (simp add: D)
    with r same_shape_trans[OF ns1(2) ns'(2)] ns'(3) show ?thesis by blast
  qed
qed

lemma hashed_upto_0:
  assumes p: "ptrs_ok ns" and h: "heights_ok ns"
  shows "hashed_upto sha ns 0"
  unfolding hashed_upto_def
proof (intro allI impI, elim conjE)
  fix l q r
  assume l: "l < length ns" "parent (ns ! l) = Some q" "height (ns ! q) \<le> 0"
  from heights_okD(1)[OF h l(1)] heights_okD(2)[OF h l(1,2)] l(3)
  show "hash (ns ! q) = sha (hash (ns ! l) @ hash (ns ! r))" by simp
qed

lemma Resume_spec:
  assumes w: "well_formed t" and li: "level_inv t"
  shows "\<exists>ns'. Resume sha t = Some (t\<lparr>nodes := ns', paused := False\<rparr>, None) \<and> same_shape (nodes t) ns' \<and>
           hashes_ok_except sha ns' {} \<and> (\<forall>q. height (nodes t ! q) = 0 \<longrightarrow> hash (ns' ! q) = hash (nodes t ! q))"
proof -
  note W = well_formedD[OF w]
  from li have L: "leaves t = lev (nodes t) 0" "levels_ok (nodes t)" "inner_ok (nodes t)" "mono_ok (nodes t)"
    unfolding level_inv_def by blast+
  from recompute_loop_spec[OF W(1,2,3,4) L(2,3,4) W(5) order_refl hashed_upto_0[OF W(1,4)], of sha]
  obtain ns' where
    ns': "recompute_loop sha (nodes t) (lev (nodes t) 0) = Some (ns', None)" "same_shape (nodes t) ns'"
      "hashes_ok_except sha ns' {}" "\<forall>q. height (nodes t ! q) = 0 \<longrightarrow> hash (ns' ! q) = hash (nodes t ! q)"
    by blast
  have "Resume sha t = Some (t\<lparr>nodes := ns', paused := False\<rparr>, None)"
    by (simp add: Resume_def recompute_def L(1) ns'(1))
  with ns'(2,3,4) show ?thesis by blast
qed

lemma mirrorD:
  assumes "mirror te tp"
  shows "same_shape (nodes te) (nodes tp)" "leaves tp = leaves te" "root tp = root te"
    "tree_height tp = tree_height te"
    "q < length (nodes te) \<Longrightarrow> height (nodes te ! q) = 0 \<Longrightarrow> hash (nodes tp ! q) = hash (nodes te ! q)"
  using assms by (simp_all add: mirror_def)

lemma nth_beyond:
  assumes "length xs = length ys" "length xs \<le> i"
  shows "xs ! i = ys ! i"
  using nth_append[of xs "[]" i] nth_append[of ys "[]" i] assms by simp

lemma same_shape_linked:
  assumes sh: "same_shape ns ns'" and c: "c < length ns"
  shows "same_shape (linked ns c lf) (linked ns' c lf')"
proof -
  note D = same_shapeD[OF sh]
  have c': "c < length ns'" using c by (simp add: D)
  have "left (linked ns' c lf' ! i) = left (linked ns c lf ! i) \<and>
        right (linked ns' c lf' ! i) = right (linked ns c lf ! i) \<and>
        parent (linked ns' c lf' ! i) = parent (linked ns c lf ! i) \<and>
        height (linked ns' c lf' ! i) = height (linked ns c lf ! i)" for i
  proof (cases "i < length ns + 2")
    case True
    then have i': "i < length ns' + 2" by (simp add: D)
    show ?thesis
      by (simp add: linked_left[OF c True] linked_left[OF c' i'] linked_right[OF c True] linked_right[OF c' i']
          linked_parent[OF c True] linked_parent[OF c' i'] linked_height[OF c True] linked_height[OF c' i'] D)
  next
    case False
    have "linked ns' c lf' ! i = linked ns c lf ! i"
      by (rule nth_beyond) (use False in \<open>simp_all add: length_linked D\<close>)
    then show ?thesis by simp
  qed
  then show ?thesis by (simp add: same_shape_def length_linked D)
qed

lemma same_shape_sym: "same_shape ns ns' \<Longrightarrow> same_shape ns' ns"
  by (simp add: same_shape_def)

lemma same_shape_climb:
  assumes "same_shape ns ns'"
  shows "climb_rel ns' = climb_rel ns" "cand_ok ns' c = cand_ok ns c"
  by (simp_all add: climb_rel_def cand_ok_def same_shapeD[OF assms])

lemma climb_end_unique:
  assumes a: "(x, a) \<in> (climb_rel ns)\<^sup>*" "cand_ok ns a" and b: "(x, b) \<in> (climb_rel ns)\<^sup>*" "cand_ok ns b"
  shows "a = b"
proof -
  have sv: "single_valued (climb_rel ns)" by (auto simp: single_valued_def climb_rel_def)
  have stop: "c = d" if "(c, d) \<in> (climb_rel ns)\<^sup>*" "cand_ok ns c" for c d
    using that(1)
  proof (cases rule: converse_rtranclE)
    case base
    then show ?thesis by simp
  next
    case (step z)
    from climb_relD[OF step(1)] that(2) show ?thesis by (simp add: cand_ok_def)
  qed
  from single_valued_confluent[OF sv a(1) b(1)] stop[OF _ a(2)] stop[OF _ b(2)] show ?thesis by auto
qed

lemma Add_mirror:
  assumes we: "well_formed te" and wp: "well_formed tp" and m: "mirror te tp"
    and ae: "Add sha te lf = Some (te', ee)" and ap: "Add sha tp lf = Some (tp', ep)"
  shows "mirror te' tp'"
proof (cases "leaves te = []")
  case True
  then have "leaves tp = []" using mirrorD(2)[OF m] by simp
  from Add_empty[OF we True, of sha lf] Add_empty[OF wp this, of sha lf] ae ap mirrorD(4)[OF m]
  show ?thesis by (auto simp: mirror_def same_shape_refl)
next
  case False
  note M = mirrorD[OF m]
  note D = same_shapeD[OF M(1)]
  from False have nep: "leaves tp \<noteq> []" using M(2) by simp
  let ?ne = "nodes te" and ?np = "nodes tp"
  from Add_result[OF we False, of sha lf] ae obtain c ne' where
    e: "te' = (Add_shape te lf c)\<lparr>nodes := ne'\<rparr>" "cand_ok ?ne c" "(last (leaves te), c) \<in> (climb_rel ?ne)\<^sup>*"
       "same_shape (linked ?ne c lf) ne'"
       "\<And>q. q < length ne' \<Longrightarrow> height (ne' ! q) = 0 \<Longrightarrow> hash (ne' ! q) = hash (linked ?ne c lf ! q)"
    by auto
  from Add_result[OF wp nep, of sha lf] ap obtain c' np' where
    p: "tp' = (Add_shape tp lf c')\<lparr>nodes := np'\<rparr>" "cand_ok ?np c'" "(last (leaves tp), c') \<in> (climb_rel ?np)\<^sup>*"
       "same_shape (linked ?np c' lf) np'"
       "\<And>q. q < length np' \<Longrightarrow> height (np' ! q) = 0 \<Longrightarrow> hash (np' ! q) = hash (linked ?np c' lf ! q)"
    by auto
  have cc: "c' = c"
    using climb_end_unique[OF p(3,2)[unfolded same_shape_climb[OF M(1)] M(2)] e(3,2)] .
  have cl: "c < length ?ne" using e(2) by (simp add: cand_ok_def)
  have cl': "c < length ?np" using cl by (simp add: D)
  have sl: "same_shape (linked ?ne c lf) (linked ?np c lf)" using M(1) cl by (rule same_shape_linked)
  have s1: "same_shape ne' np'"
    by (rule same_shape_trans[OF same_shape_trans[OF same_shape_sym[OF e(4)] sl] p(4)[unfolded cc]])
  note De = same_shapeD[OF e(4)] and Dp = same_shapeD[OF p(4)[unfolded cc]] and D1 = same_shapeD[OF s1]
  have hs: "hash (np' ! q) = hash (ne' ! q)" if q: "q < length ne'" "height (ne' ! q) = 0" for q
  proof -
    have q2: "q < length ?ne + 2" using q(1) by (simp add: De length_linked)
    then have q2': "q < length ?np + 2" by (simp add: D)
    have hq: "height (linked ?ne c lf ! q) = 0" using q(2) by (simp add: De)
    have "hash (linked ?np c lf ! q) = hash (linked ?ne c lf ! q)"
    proof (cases "q < length ?ne")
      case True
      with hq cl have "height (?ne ! q) = 0" by (simp add: linked_height_old)
      from M(5)[OF True this] True cl cl' show ?thesis by (simp add: linked_hash_old D)
    next
      case False
      with q2 show ?thesis by (simp add: linked_hash[OF cl q2] linked_hash[OF cl' q2'] D)
    qed
    with e(5)[OF q] p(5)[unfolded cc, of q] q show ?thesis by (simp add: D1)
  qed
  show ?thesis
    unfolding mirror_def e(1) p(1) cc using s1 hs by (simp add: Add_shape_def M D)
qed

lemma goodD:
  assumes "good sha t"
  shows "well_formed t" "level_inv t" "\<not> paused t \<Longrightarrow> hashes_ok_except sha (nodes t) {}"
  using assms by (simp_all add: good_def)

lemma Update_hashes_ok:
  assumes w: "well_formed t" and ix: "0 \<le> index" "index < int (length (leaves t))" and np: "\<not> paused t"
    and ok: "hashes_ok_except sha (nodes t) {}" and u: "Update sha t index hsh = Some (t', e)"
  shows "hashes_ok_except sha (nodes t') {}"
proof -
  let ?ns = "nodes t" and ?l = "leaves t ! nat index"
  note W = well_formedD[OF w]
  from Update_active[OF w ix np, of sha hsh] u obtain ns' where
    ns': "t' = t\<lparr>nodes := ns'\<rparr>" "same_shape ?ns ns'"
      "\<And>q. (?l, q) \<notin> (par_rel ?ns)\<^sup>* \<Longrightarrow> hash (ns' ! q) = hash (?ns ! q)"
      "\<And>i q. i < length ?ns \<Longrightarrow> parent (?ns ! i) = Some q \<Longrightarrow> (?l, q) \<in> (par_rel ?ns)\<^sup>* \<Longrightarrow>
          Parent (oriented_triplet ns' i) = sha (Left (oriented_triplet ns' i) @ Right (oriented_triplet ns' i))"
    by auto
  note D = same_shapeD[OF ns'(2)]
  have "hashes_ok_except sha ns' {}"
    unfolding hashes_ok_except_def
  proof (intro allI impI, elim conjE)
    fix l q r
    assume "l < length ns'" "parent (ns' ! l) = Some q" "right (ns' ! l) = Some r"
    then have l: "l < length ?ns" "parent (?ns ! l) = Some q" "right (?ns ! l) = Some r" by (simp_all add: D)
    from sib_okD(2)[OF W(2,1) l(1,3)] l(2) have r: "r < length ?ns" "parent (?ns ! r) = Some q" by simp_all
    from sib_okD(3)[OF W(2,1) l(1)] l(3) have ll: "left (?ns ! l) = None" by simp
    show "hash (ns' ! q) = sha (hash (ns' ! l) @ hash (ns' ! r))"
    proof (cases "(?l, q) \<in> (par_rel ?ns)\<^sup>*")
      case True
      from ns'(4)[OF l(1,2) True] show ?thesis by (simp add: oriented_triplet_def D ll l(2,3))
    next
      case False
      have nl: "(?l, l) \<notin> (par_rel ?ns)\<^sup>*"
      proof
        assume "(?l, l) \<in> (par_rel ?ns)\<^sup>*"
        moreover have "(l, q) \<in> par_rel ?ns" using l(1,2) by (simp add: par_rel_def)
        ultimately have "(?l, q) \<in> (par_rel ?ns)\<^sup>*" by (rule rtrancl_into_rtrancl)
        with False show False by simp
      qed
      have nr: "(?l, r) \<notin> (par_rel ?ns)\<^sup>*"
      proof
        assume "(?l, r) \<in> (par_rel ?ns)\<^sup>*"
        moreover have "(r, q) \<in> par_rel ?ns" using r by (simp add: par_rel_def)
        ultimately have "(?l, q) \<in> (par_rel ?ns)\<^sup>*" by (rule rtrancl_into_rtrancl)
        with False show False by simp
      qed
      from ok[unfolded hashes_ok_except_def, rule_format, of l q r] l
      have "hash (?ns ! q) = sha (hash (?ns ! l) @ hash (?ns ! r))" by simp
      with ns'(3)[OF False] ns'(3)[OF nl] ns'(3)[OF nr] show ?thesis by simp
    qed
  qed
  with ns'(1) show ?thesis by simp
qed

lemma apply_op_good:
  assumes g: "good sha t" and a: "apply_op sha t x = Some (t', e)"
  shows "good sha t'"
proof -
  note w = goodD(1)[OF g] and li = goodD(2)[OF g] and ok = goodD(3)[OF g]
  note w' = apply_op_well_formed[OF w a]
  have "level_inv t' \<and> (\<not> paused t' \<longrightarrow> hashes_ok_except sha (nodes t') {})"
  proof (cases x)
    case (OpAdd leaf)
    with a have ad: "Add sha t leaf = Some (t', e)" by simp
    from Add_well_formed[OF w, of sha leaf] ad ok have "\<not> paused t' \<longrightarrow> hashes_ok_except sha (nodes t') {}"
      by auto
    with level_inv_Add[OF w li ad] show ?thesis by simp
  next
    case (OpUpdate index hsh)
    with a have u: "Update sha t index hsh = Some (t', e)" by simp
    show ?thesis
    proof (cases "index < 0 \<or> int (length (leaves t)) \<le> index")
      case True
      from Update_out_of_range[OF True, of sha hsh] u li ok show ?thesis by auto
    next
      case False
      then have ix: "0 \<le> index" "index < int (length (leaves t))" by auto
      show ?thesis
      proof (cases "paused t")
        case True
        from Update_paused[OF w ix True, of sha hsh] u
        have t': "t' = t\<lparr>nodes := (nodes t)[leaves t ! nat index := (nodes t ! (leaves t ! nat index))\<lparr>hash := hsh\<rparr>]\<rparr>"
          by simp
        have "level_inv t'" by (rule level_inv_cong[OF li]) (simp_all add: t' same_shape_sethash)
        with True show ?thesis by (simp add: t')
      next
        case np: False
        from Update_active[OF w ix np, of sha hsh] u obtain ns' where
          t': "t' = t\<lparr>nodes := ns'\<rparr>" "same_shape (nodes t) ns'" by auto
        have "level_inv t'" by (rule level_inv_cong[OF li]) (simp_all add: t')
        with Update_hashes_ok[OF w ix np ok[OF np] u] show ?thesis by simp
      qed
    qed
  next
    case OpPause
    with a have t': "t' = t\<lparr>paused := True\<rparr>" by (simp add: Pause_def)
    have "level_inv t'" by (rule level_inv_cong[OF li]) (simp_all add: t' same_shape_refl)
    then show ?thesis by (simp add: t')
  next
    case OpResume
    with a have r: "Resume sha t = Some (t', e)" by simp
    from Resume_spec[OF w li, of sha] r obtain ns' where
      t': "t' = t\<lparr>nodes := ns', paused := False\<rparr>" "same_shape (nodes t) ns'" "hashes_ok_except sha ns' {}"
      by auto
    have "level_inv t'" by (rule level_inv_cong[OF li]) (simp_all add: t')
    with t'(3) show ?thesis by (simp add: t'(1))
  qed
  with w' show ?thesis by (simp add: good_def)
qed

lemma run_good:
  "good sha t \<Longrightarrow> run sha t ops = Some t' \<Longrightarrow> good sha t'"
proof (induction ops arbitrary: t)
  case Nil
  then show ?case by simp
next
  case (Cons x xs)
  show ?case
  proof (cases "apply_op sha t x")
    case None
    with Cons.prems(2) show ?thesis by simp
  next
    case (Some res)
    obtain t1 e1 where res: "res = (t1, e1)" by (cases res)
    from apply_op_good[OF Cons.prems(1) Some[unfolded res]] have "good sha t1" .
    moreover from Cons.prems(2) Some res have "run sha t1 xs = Some t'" by simp
    ultimately show ?thesis by (rule Cons.IH)
  qed
qed

lemma good_new:
  assumes "NewDynTree initialCap = Inr t"
  shows "good sha t"
proof -
  from assms have "nodes t = []" by (auto simp: NewDynTree_def split: if_splits)
  then have "hashes_ok_except sha (nodes t) {}" by (simp add: hashes_ok_except_def)
  with well_formed_new[OF assms] level_inv_new[OF assms] show ?thesis by (simp add: good_def)
qed

lemma hashes_determined:
  assumes p: "ptrs_ok ns" and s: "sib_ok ns" and h: "heights_ok ns" and io: "inner_ok ns"
    and sh: "same_shape ns ns'"
    and ok: "hashes_ok_except sha ns {}" and ok': "hashes_ok_except sha ns' {}"
    and lf: "\<And>q. q < length ns \<Longrightarrow> height (ns ! q) = 0 \<Longrightarrow> hash (ns' ! q) = hash (ns ! q)"
  shows "q < length ns \<Longrightarrow> hash (ns' ! q) = hash (ns ! q)"
proof (induction "nat (height (ns ! q))" arbitrary: q rule: less_induct)
  case less
  note D = same_shapeD[OF sh]
  show ?case
  proof (cases "height (ns ! q) = 0")
    case True
    from lf[OF less(2) True] show ?thesis .
  next
    case False
    from io[unfolded inner_ok_def, rule_format, OF less(2) False] obtain l r where
      l: "l < length ns" "parent (ns ! l) = Some q" "right (ns ! l) = Some r" by auto
    note L = left_child_low[OF p s h l(1) refl l(3)]
    from heights_okD(2)[OF h l(1,2)] have hl: "height (ns ! l) < height (ns ! q)" .
    from heights_okD(1)[OF h l(1)] heights_okD(1)[OF h L(1)] have nn: "0 \<le> height (ns ! l)" "0 \<le> height (ns ! r)"
      by simp_all
    have "nat (height (ns ! l)) < nat (height (ns ! q))" using hl nn by simp
    from less(1)[OF this l(1)] have el: "hash (ns' ! l) = hash (ns ! l)" .
    have "nat (height (ns ! r)) < nat (height (ns ! q))" using hl nn L(2) by simp
    from less(1)[OF this L(1)] have er: "hash (ns' ! r) = hash (ns ! r)" .
    from ok[unfolded hashes_ok_except_def, rule_format, of l q r] l
    have 1: "hash (ns ! q) = sha (hash (ns ! l) @ hash (ns ! r))" by simp
    from ok'[unfolded hashes_ok_except_def, rule_format, of l q r] l
    have 2: "hash (ns' ! q) = sha (hash (ns' ! l) @ hash (ns' ! r))" by (simp add: D)
    from 1 2 el er show ?thesis by simp
  qed
qed

lemma same_nodes:
  assumes sh: "same_shape ns ns'" and hs: "\<And>q. q < length ns \<Longrightarrow> hash (ns' ! q) = hash (ns ! q)"
  shows "ns' = ns"
proof (rule nth_equalityI)
  note D = same_shapeD[OF sh]
  show "length ns' = length ns" by (rule D(1))
  fix i assume "i < length ns'"
  then have "i < length ns" by (simp add: D)
  from hs[OF this] show "ns' ! i = ns ! i" by (intro DynTreeNode.equality) (simp_all add: D)
qed

lemma Adds_mirror:
  assumes "well_formed te" "well_formed tp" "mirror te tp" "level_inv tp" "\<not> paused te" "paused tp"
    "hashes_ok_except sha (nodes te) {}"
  shows "\<exists>te' tp'. Adds sha te xs = Some (te', None) \<and> Adds sha tp xs = Some (tp', None) \<and>
           well_formed te' \<and> well_formed tp' \<and> mirror te' tp' \<and> level_inv tp' \<and>
           \<not> paused te' \<and> paused tp' \<and> hashes_ok_except sha (nodes te') {}"
  using assms
proof (induction xs arbitrary: te tp)
  case Nil
  then show ?case by simp
next
  case (Cons x xs)
  from Add_well_formed[OF Cons.prems(1), of sha x] Cons.prems(5,7) obtain te1 where
    e: "Add sha te x = Some (te1, None)" "well_formed te1" "\<not> paused te1" "hashes_ok_except sha (nodes te1) {}"
    by auto
  from Add_well_formed[OF Cons.prems(2), of sha x] Cons.prems(6) obtain tp1 where
    p: "Add sha tp x = Some (tp1, None)" "well_formed tp1" "paused tp1"
    by auto
  note m1 = Add_mirror[OF Cons.prems(1,2,3) e(1) p(1)]
  note l1 = level_inv_Add[OF Cons.prems(2,4) p(1)]
  from Cons.IH[OF e(2) p(2) m1 l1 e(3) p(3) e(4)] e(1) p(1) show ?case by simp
qed

lemma Resume_restores:
  assumes g: "good sha t" and np: "\<not> paused t"
  shows "\<exists>te tp. Adds sha t xs = Some (te, None) \<and> Adds sha (Pause t) xs = Some (tp, None) \<and>
           Resume sha tp = Some (te, None)"
proof -
  note w = goodD(1)[OF g] and li = goodD(2)[OF g] and ok = goodD(3)[OF g np]
  have wp: "well_formed (Pause t)" using w by (simp add: well_formed_def Pause_def)
  have lp: "level_inv (Pause t)" by (rule level_inv_cong[OF li]) (simp_all add: Pause_def same_shape_refl)
  have m: "mirror t (Pause t)" by (simp add: mirror_def Pause_def same_shape_refl)
  have pp: "paused (Pause t)" by (simp add: Pause_def)
  from Adds_mirror[OF w wp m lp np pp ok, of xs] obtain te tp where
    r: "Adds sha t xs = Some (te, None)" "Adds sha (Pause t) xs = Some (tp, None)"
       "well_formed te" "well_formed tp" "mirror te tp" "level_inv tp" "\<not> paused te"
       "hashes_ok_except sha (nodes te) {}"
    by blast
  note M = mirrorD[OF r(5)] and W = well_formedD[OF r(3)]
  note D = same_shapeD[OF M(1)]
  from Resume_spec[OF r(4,6), of sha] obtain ns' where
    ns': "Resume sha tp = Some (tp\<lparr>nodes := ns', paused := False\<rparr>, None)" "same_shape (nodes tp) ns'"
      "hashes_ok_except sha ns' {}" "\<And>q. height (nodes tp ! q) = 0 \<Longrightarrow> hash (ns' ! q) = hash (nodes tp ! q)"
    by blast
  have sh: "same_shape (nodes te) ns'" using M(1) ns'(2) by (rule same_shape_trans)
  have io: "inner_ok (nodes te)"
    using r(6) by (simp add: level_inv_def same_shape_level[OF M(1), symmetric])
  have lf: "hash (ns' ! q) = hash (nodes te ! q)" if "q < length (nodes te)" "height (nodes te ! q) = 0" for q
    using ns'(4)[of q] M(5)[OF that] that(2) by (simp add: D)
  have "ns' = nodes te"
    by (rule same_nodes[OF sh]) (rule hashes_determined[OF W(1,2,4) io sh r(8) ns'(3) lf])
  then have "tp\<lparr>nodes := ns', paused := False\<rparr> = te"
    using M(2,3,4) r(7) by (intro DynTree.equality) simp_all
  with ns'(1) r(1,2) show ?thesis by simp
qed

lemma nibbles_div_mod:
  "unat (drop_bit 4 (b :: 8 word)) = unat b div 16" "unat (b AND 15) = unat b mod 16"
proof -
  show "unat (drop_bit 4 b) = unat b div 16"
    unfolding unat_drop_bit_eq by (simp add: drop_bit_eq_div)
  have "b AND 15 = take_bit 4 b" by (simp add: take_bit_eq_mask mask_eq_exp_minus_1)
  then show "unat (b AND 15) = unat b mod 16"
    by (simp only: unsigned_take_bit_eq) (simp add: take_bit_eq_mod)
qed

lemma nibbles_bound: "unat (drop_bit 4 (b :: 8 word)) < 16" "unat (b AND 15) < 16"
proof -
  have "unat b < 256" using unsigned_less[of b] by simp
  then show "unat (drop_bit 4 b) < 16" unfolding nibbles_div_mod by simp
  show "unat (b AND 15) < 16" unfolding nibbles_div_mod by simp
qed

lemma hextable_inj: "i < 16 \<Longrightarrow> j < 16 \<Longrightarrow> hextable ! i = hextable ! j \<Longrightarrow> i = j"
proof -
  have "distinct hextable" "length hextable = 16" by (simp_all add: hextable_def)
  then show "i < 16 \<Longrightarrow> j < 16 \<Longrightarrow> hextable ! i = hextable ! j \<Longrightarrow> i = j"
    by (simp add: nth_eq_iff_index_eq)
qed

lemma hextable_no_quote: "i < 16 \<Longrightarrow> hextable ! i \<noteq> CHR 0x22"
proof
  assume i: "i < 16" and e: "hextable ! i = CHR 0x22"
  have "length hextable = 16" by (simp add: hextable_def)
  with i have m: "hextable ! i \<in> set hextable" by (simp only: nth_mem)
  have n: "CHR 0x22 \<notin> set hextable" by (simp add: hextable_def)
  from n m[unfolded e] show False by (rule notE)
qed

lemma byte_from_nibbles:
  assumes "unat (a :: 8 word) div 16 = unat b div 16" "unat a mod 16 = unat b mod 16"
  shows "a = b"
proof -
  have "unat a div 16 * 16 + unat a mod 16 = unat b div 16 * 16 + unat b mod 16"
    by (simp only: assms)
  then have "unat a = unat b" by (simp only: div_mult_mod_eq)
  then show ?thesis by (simp only: word_unat_eq_iff)
qed

lemma EncodeToString_inj: "EncodeToString a = EncodeToString b \<Longrightarrow> a = b"
proof (induction a arbitrary: b)
  case Nil
  then show ?case by (cases b) simp_all
next
  case (Cons x a)
  then obtain y b' where b: "b = y # b'" by (cases b) simp_all
  from Cons.prems b have e: "hextable ! unat (drop_bit 4 x) = hextable ! unat (drop_bit 4 y)"
    "hextable ! unat (x AND 15) = hextable ! unat (y AND 15)" "EncodeToString a = EncodeToString b'"
    by simp_all
  from hextable_inj[OF nibbles_bound(1) nibbles_bound(1) e(1)] hextable_inj[OF nibbles_bound(2) nibbles_bound(2) e(2)]
  have "x = y" by (intro byte_from_nibbles) (simp_all add: nibbles_div_mod)
  with Cons.IH[OF e(3)] b show ?case by simp
qed

lemma EncodeToString_no_quote: "CHR 0x22 \<notin> set (EncodeToString bs)"
  by (induction bs) (simp_all add: hextable_no_quote[symmetric] hextable_no_quote nibbles_bound)

lemma EncodeToString_length: "length (EncodeToString bs) = 2 * length bs"
  by (induction bs) simp_all

lemma EncodeToString_nth:
  "i < length bs \<Longrightarrow>
   EncodeToString bs ! (2 * i) = ''0123456789abcdef'' ! (unat (bs ! i) div 16) \<and>
   EncodeToString bs ! (2 * i + 1) = ''0123456789abcdef'' ! (unat (bs ! i) mod 16)"
proof (induction bs arbitrary: i)
  case Nil
  then show ?case by simp
next
  case (Cons b bs)
  show ?case
  proof (cases i)
    case 0
    then show ?thesis by (simp add: nibbles_div_mod hextable_def)
  next
    case (Suc j)
    with Cons.prems have "j < length bs" by simp
    from Cons.IH[OF this] Suc show ?thesis by simp
  qed
qed

lemma split_at_quote:
  assumes "CHR 0x22 \<notin> set xs" "CHR 0x22 \<notin> set ys" "xs @ CHR 0x22 # r = ys @ CHR 0x22 # r'"
  shows "xs = ys \<and> r = r'"
  using assms
proof (induction xs arbitrary: ys)
  case Nil
  then show ?case by (cases ys) auto
next
  case (Cons x xs)
  then show ?case by (cases ys) auto
qed

lemma quoted_hex_split:
  assumes "quoted (EncodeToString a) @ r = quoted (EncodeToString b) @ r'"
  shows "a = b \<and> r = r'"
proof -
  from assms have "EncodeToString a @ CHR 0x22 # r = EncodeToString b @ CHR 0x22 # r'"
    by (simp add: quoted_def)
  from split_at_quote[OF EncodeToString_no_quote EncodeToString_no_quote this] EncodeToString_inj
  show ?thesis by blast
qed

lemma unexpected_parent_inj:
  assumes "unexpected_parent g w = unexpected_parent g' w'"
  shows "g = g' \<and> w = w'"
proof -
  from assms have "quoted (EncodeToString g) @ '' want '' @ quoted (EncodeToString w) @ [] =
      quoted (EncodeToString g') @ '' want '' @ quoted (EncodeToString w') @ []"
    by (simp add: unexpected_parent_def)
  from quoted_hex_split[OF this] have 1: "g = g'"
    and "quoted (EncodeToString w) @ [] = quoted (EncodeToString w') @ []" by simp_all
  from quoted_hex_split[OF this(2)] 1 show ?thesis by simp
qed

lemma parent_not_found_inj:
  assumes "parent_not_found e a1 a2 = parent_not_found e' a1' a2'"
  shows "e = e' \<and> a1 = a1' \<and> a2 = a2'"
proof -
  from assms have "quoted (EncodeToString e) @ '', got '' @ quoted (EncodeToString a1) @ '' and '' @ quoted (EncodeToString a2) @ [] =
      quoted (EncodeToString e') @ '', got '' @ quoted (EncodeToString a1') @ '' and '' @ quoted (EncodeToString a2') @ []"
    by (simp add: parent_not_found_def)
  from quoted_hex_split[OF this] have 1: "e = e'"
    and "quoted (EncodeToString a1) @ '' and '' @ quoted (EncodeToString a2) @ [] =
         quoted (EncodeToString a1') @ '' and '' @ quoted (EncodeToString a2') @ []" by simp_all
  from quoted_hex_split[OF this(2)] have 2: "a1 = a1'"
    and "quoted (EncodeToString a2) @ [] = quoted (EncodeToString a2') @ []" by simp_all
  from quoted_hex_split[OF this(2)] 1 2 show ?thesis by simp
qed

lemma NewDynTree_empty: "NewDynTree initialCap = Inr t \<Longrightarrow> t = empty_tree"
  by (auto simp: NewDynTree_def empty_tree_def split: if_splits)

lemma run_three_leaves:
  "run example_digest empty_tree [OpAdd [1], OpAdd [2], OpAdd [3]] = Some three_leaf_tree"
  by code_simp

lemma Adds_three_leaves:
  "Adds example_digest empty_tree [[1], [2], [3]] = Some (three_leaf_tree, None)"
  by code_simp

lemma MV_simp: "MerkleNodeHashes_Validate sha h =
  (if Parent h = sha (Left h @ Right h) then None else Some (unexpected_parent (Parent h) (sha (Left h @ Right h))))"
  by (simp add: MerkleNodeHashes_Validate_def Let_def)

lemma msg_distinct: "unexpected_parent g w \<noteq> parent_not_found e a1 a2"
  by (simp add: unexpected_parent_def parent_not_found_def)

lemma Path_Validate_None_iff:
  "Path_Validate sha p = None \<longleftrightarrow>
     (\<forall>i<length p. Parent (p ! i) = sha (Left (p ! i) @ Right (p ! i))) \<and>
     (\<forall>i. Suc i < length p \<longrightarrow>
        Parent (p ! i) = Left (p ! Suc i) \<or> Parent (p ! i) = Right (p ! Suc i))"
proof (induction p)
  case Nil
  show ?case by simp
next
  case (Cons h p)
  show ?case
  proof (cases p)
    case Nil
    then show ?thesis by (simp add: MV_simp)
  next
    case (Cons up q)
    have a: "(\<forall>i<length (h # p). P i) \<longleftrightarrow> P 0 \<and> (\<forall>i<length p. P (Suc i))" for P
      by (auto simp: less_Suc_eq_0_disj)
    have b: "(\<forall>i. Suc i < length (h # p) \<longrightarrow> Q i) \<longleftrightarrow> Q 0 \<and> (\<forall>i. Suc i < length p \<longrightarrow> Q (Suc i))" for Q
      using Cons by (auto simp: less_Suc_eq_0_disj)
    show ?thesis
      unfolding a b using Cons.IH Cons
      by (auto simp: MV_simp)
  qed
qed

lemma Path_Validate_Some:
  "Path_Validate sha p = Some err \<Longrightarrow>
     \<exists>i<length p.
        (Parent (p ! i) \<noteq> sha (Left (p ! i) @ Right (p ! i)) \<and>
         err = unexpected_parent (Parent (p ! i)) (sha (Left (p ! i) @ Right (p ! i)))) \<or>
        (Suc i < length p \<and> Parent (p ! i) \<noteq> Left (p ! Suc i) \<and> Parent (p ! i) \<noteq> Right (p ! Suc i) \<and>
         err = parent_not_found (Parent (p ! i)) (Left (p ! Suc i)) (Right (p ! Suc i)))"
proof (induction p)
  case Nil
  then show ?case by simp
next
  case (Cons h p)
  show ?case
  proof (cases "Parent h = sha (Left h @ Right h)")
    case False
    with Cons.prems have "err = unexpected_parent (Parent h) (sha (Left h @ Right h))"
      by (simp add: MV_simp)
    with False show ?thesis by (intro exI[of _ 0]) simp
  next
    case True
    show ?thesis
    proof (cases p)
      case Nil
      with True Cons.prems show ?thesis by (simp add: MV_simp)
    next
      case c: (Cons up q)
      show ?thesis
      proof (cases "Parent h \<noteq> Left up \<and> Parent h \<noteq> Right up")
        case t: True
        with True c Cons.prems have "err = parent_not_found (Parent h) (Left up) (Right up)"
          by (simp add: MV_simp)
        with t c show ?thesis by (intro exI[of _ 0]) simp
      next
        case False
        with True c Cons.prems have "Path_Validate sha p = Some err"
          by (auto simp: MV_simp)
        from Cons.IH[OF this] obtain i where "i < length p" and
          i: "(Parent (p ! i) \<noteq> sha (Left (p ! i) @ Right (p ! i)) \<and>
         err = unexpected_parent (Parent (p ! i)) (sha (Left (p ! i) @ Right (p ! i)))) \<or>
        (Suc i < length p \<and> Parent (p ! i) \<noteq> Left (p ! Suc i) \<and> Parent (p ! i) \<noteq> Right (p ! Suc i) \<and>
         err = parent_not_found (Parent (p ! i)) (Left (p ! Suc i)) (Right (p ! Suc i)))" by blast
        then show ?thesis by (intro exI[of _ "Suc i"]) simp
      qed
    qed
  qed
qed

lemma Path_Validate_short:
  "length p \<le> 1 \<Longrightarrow> Path_Validate sha p \<noteq> Some (parent_not_found e a1 a2)"
  by (cases p) (auto simp: MV_simp msg_distinct)

lemma run_reachable_wf:
  assumes "NewDynTree initialCap = Inr t0" "run sha t0 ops = Some t"
  shows "well_formed t"
  using run_well_formed[OF well_formed_new[OF assms(1)] assms(2)] .

text \<open>
  Claim C1. On a tree built only by \<^verbatim>\<open>Add\<close> calls with hashing active and holding at least two
  leaves, \<^verbatim>\<open>Path(index)\<close> for every index in \<open>[0, LeavesLen())\<close> returns a non-empty path
  that \<^verbatim>\<open>Path.Validate\<close> accepts, and the \<^verbatim>\<open>Parent\<close> of its last triplet is \<^verbatim>\<open>Root()\<close>.
  All the \<^verbatim>\<open>Add\<close> calls return without a panic.
\<close>

theorem Path_round_trip:
  assumes new: "NewDynTree initialCap = Inr t0"
    and n: "2 \<le> length ls" and ix: "0 \<le> index" "index < int (length ls)"
  shows "\<exists>t p r. Adds sha t0 ls = Some (t, None) \<and> LeavesLen t = int (length ls) \<and>
           Path t index = Inr p \<and> p \<noteq> [] \<and> Path_Validate sha p = None \<and>
           Root t = Inr r \<and> Parent (last p) = r"
proof -
  note w0 = well_formed_new[OF new]
  have e0: "t0 = empty_tree" using NewDynTree_empty[OF new] .
  have "\<not> paused t0" "hashes_ok_except sha (nodes t0) {}" "leaves t0 = []"
    unfolding e0 by (simp_all add: empty_tree_def hashes_ok_except_def)
  with Adds_ok[OF w0, of sha ls] obtain t where
    t: "Adds sha t0 ls = Some (t, None)" "well_formed t" "hashes_ok_except sha (nodes t) {}"
       "length (leaves t) = length ls" by auto
  note W = well_formedD[OF t(2)]
  from Path_spec[OF t(2), of index] n ix t(4) obtain p where
    p: "Path t index = Inr p" "p \<noteq> []"
       "parent (nodes t ! nth_parent (nodes t) (leaves t ! nat index) (length p)) = None"
       "\<forall>k<length p. nth_parent (nodes t) (leaves t ! nat index) k < length (nodes t) \<and>
                   parent (nodes t ! nth_parent (nodes t) (leaves t ! nat index) k) \<noteq> None \<and>
                   p ! k = oriented_triplet (nodes t) (nth_parent (nodes t) (leaves t ! nat index) k)"
    by auto
  have mem: "leaves t ! nat index \<in> set (leaves t)" using ix t(4) by simp
  with W(8) have l: "leaves t ! nat index < length (nodes t)" unfolding leaves_ok_def by blast
  then have "nodes t \<noteq> []" by auto
  with W(7) obtain r where r: "root t = Some r" unfolding root_ok_def by (cases "root t") auto
  from triplets_valid[OF W(1,2) t(3) W(7)[unfolded r] l p(3,4)] p(2)
  have v: "Path_Validate sha p = None" "Parent (last p) = hash (nodes t ! r)" by simp_all
  have "Root t = Inr (hash (nodes t ! r))"
    using root_okD(1)[OF W(7)[unfolded r]] r by (simp add: Root_def deref_def)
  with t(1,4) p(1,2) v show ?thesis by (simp add: LeavesLen_def)
qed

theorem Path_round_trip_witness:
  "\<exists>t p r. Adds example_digest empty_tree [[1], [2], [3]] = Some (t, None) \<and>
           LeavesLen t = 3 \<and> Path t 2 = Inr p \<and> p \<noteq> [] \<and>
           Path_Validate example_digest p = None \<and> Root t = Inr r \<and> Parent (last p) = r"
  using Path_round_trip[of 2 empty_tree "[[1], [2], [3]]" 2 example_digest]
  by (simp add: NewDynTree_def wrap_int_def empty_tree_def)

text \<open>
  Claim C3. \<^verbatim>\<open>Path.Validate\<close> returns nil exactly when every triplet has
  \<open>Parent = sha (Left @ Right)\<close> and every triplet's \<open>Parent\<close> is the \<open>Left\<close> or the \<open>Right\<close>
  of the next one. An error it returns is, for some triplet, either the text
  \<^verbatim>\<open>unexpected parent hash got "G" want "W"\<close>, where \<open>G\<close> and \<open>W\<close> are the stored and the
  recomputed digest in hexadecimal, or the text
  \<^verbatim>\<open>could not find parent hash "E", got "A" and "B"\<close>, where \<open>E\<close> is the unmatched parent
  hash and \<open>A\<close>, \<open>B\<close> are the two candidates of the next triplet. A path of at most one
  triplet is decided by the first check alone and never gets the second text. The digests
  can be read back from either text: the two texts are never equal, each determines its
  two or three digests, and the hexadecimal form has two lower-case digits for every byte,
  the high half first.
\<close>

theorem Path_Validate_spec:
  "(Path_Validate sha p = None \<longleftrightarrow>
      (\<forall>i<length p. Parent (p ! i) = sha (Left (p ! i) @ Right (p ! i))) \<and>
      (\<forall>i. Suc i < length p \<longrightarrow>
         Parent (p ! i) = Left (p ! Suc i) \<or> Parent (p ! i) = Right (p ! Suc i))) \<and>
   (\<forall>err. Path_Validate sha p = Some err \<longrightarrow>
      (\<exists>i<length p.
         (Parent (p ! i) \<noteq> sha (Left (p ! i) @ Right (p ! i)) \<and>
          err = unexpected_parent (Parent (p ! i)) (sha (Left (p ! i) @ Right (p ! i))) \<and>
          err = ''unexpected parent hash got '' @ [CHR 0x22] @ EncodeToString (Parent (p ! i)) @ [CHR 0x22] @
                '' want '' @ [CHR 0x22] @ EncodeToString (sha (Left (p ! i) @ Right (p ! i))) @ [CHR 0x22]) \<or>
         (Suc i < length p \<and> Parent (p ! i) \<noteq> Left (p ! Suc i) \<and> Parent (p ! i) \<noteq> Right (p ! Suc i) \<and>
          err = parent_not_found (Parent (p ! i)) (Left (p ! Suc i)) (Right (p ! Suc i)) \<and>
          err = ''could not find parent hash '' @ [CHR 0x22] @ EncodeToString (Parent (p ! i)) @ [CHR 0x22] @
                '', got '' @ [CHR 0x22] @ EncodeToString (Left (p ! Suc i)) @ [CHR 0x22] @
                '' and '' @ [CHR 0x22] @ EncodeToString (Right (p ! Suc i)) @ [CHR 0x22]))) \<and>
   (length p \<le> 1 \<longrightarrow> (\<forall>e a1 a2. Path_Validate sha p \<noteq> Some (parent_not_found e a1 a2))) \<and>
   (length p \<le> 1 \<longrightarrow>
      (Path_Validate sha p = None \<longleftrightarrow> (\<forall>i<length p. Parent (p ! i) = sha (Left (p ! i) @ Right (p ! i))))) \<and>
   (\<forall>g w g' w'. unexpected_parent g w = unexpected_parent g' w' \<longrightarrow> g = g' \<and> w = w') \<and>
   (\<forall>e a1 a2 e' a1' a2'.
      parent_not_found e a1 a2 = parent_not_found e' a1' a2' \<longrightarrow> e = e' \<and> a1 = a1' \<and> a2 = a2') \<and>
   (\<forall>g w e a1 a2. unexpected_parent g w \<noteq> parent_not_found e a1 a2) \<and>
   (\<forall>a b. EncodeToString a = EncodeToString b \<longrightarrow> a = b) \<and>
   (\<forall>bs. length (EncodeToString bs) = 2 * length bs \<and>
      (\<forall>i<length bs.
         EncodeToString bs ! (2 * i) = ''0123456789abcdef'' ! (unat (bs ! i) div 16) \<and>
         EncodeToString bs ! (2 * i + 1) = ''0123456789abcdef'' ! (unat (bs ! i) mod 16)))"
proof -
  have u: "unexpected_parent g w =
      ''unexpected parent hash got '' @ [CHR 0x22] @ EncodeToString g @ [CHR 0x22] @
      '' want '' @ [CHR 0x22] @ EncodeToString w @ [CHR 0x22]" for g w
    by (simp add: unexpected_parent_def quoted_def)
  have n: "parent_not_found e a1 a2 =
      ''could not find parent hash '' @ [CHR 0x22] @ EncodeToString e @ [CHR 0x22] @
      '', got '' @ [CHR 0x22] @ EncodeToString a1 @ [CHR 0x22] @
      '' and '' @ [CHR 0x22] @ EncodeToString a2 @ [CHR 0x22]" for e a1 a2
    by (simp add: parent_not_found_def quoted_def)
  have 1: "Path_Validate sha p = None \<longleftrightarrow>
      (\<forall>i<length p. Parent (p ! i) = sha (Left (p ! i) @ Right (p ! i))) \<and>
      (\<forall>i. Suc i < length p \<longrightarrow>
         Parent (p ! i) = Left (p ! Suc i) \<or> Parent (p ! i) = Right (p ! Suc i))"
    by (rule Path_Validate_None_iff)
  have 2: "\<forall>err. Path_Validate sha p = Some err \<longrightarrow>
      (\<exists>i<length p.
         (Parent (p ! i) \<noteq> sha (Left (p ! i) @ Right (p ! i)) \<and>
          err = unexpected_parent (Parent (p ! i)) (sha (Left (p ! i) @ Right (p ! i))) \<and>
          err = ''unexpected parent hash got '' @ [CHR 0x22] @ EncodeToString (Parent (p ! i)) @ [CHR 0x22] @
                '' want '' @ [CHR 0x22] @ EncodeToString (sha (Left (p ! i) @ Right (p ! i))) @ [CHR 0x22]) \<or>
         (Suc i < length p \<and> Parent (p ! i) \<noteq> Left (p ! Suc i) \<and> Parent (p ! i) \<noteq> Right (p ! Suc i) \<and>
          err = parent_not_found (Parent (p ! i)) (Left (p ! Suc i)) (Right (p ! Suc i)) \<and>
          err = ''could not find parent hash '' @ [CHR 0x22] @ EncodeToString (Parent (p ! i)) @ [CHR 0x22] @
                '', got '' @ [CHR 0x22] @ EncodeToString (Left (p ! Suc i)) @ [CHR 0x22] @
                '' and '' @ [CHR 0x22] @ EncodeToString (Right (p ! Suc i)) @ [CHR 0x22]))"
  proof (intro allI impI)
    fix err assume "Path_Validate sha p = Some err"
    from Path_Validate_Some[OF this] obtain i where i: "i < length p"
      "(Parent (p ! i) \<noteq> sha (Left (p ! i) @ Right (p ! i)) \<and>
         err = unexpected_parent (Parent (p ! i)) (sha (Left (p ! i) @ Right (p ! i)))) \<or>
        (Suc i < length p \<and> Parent (p ! i) \<noteq> Left (p ! Suc i) \<and> Parent (p ! i) \<noteq> Right (p ! Suc i) \<and>
         err = parent_not_found (Parent (p ! i)) (Left (p ! Suc i)) (Right (p ! Suc i)))"
      by blast
    from i(2) show "\<exists>i<length p.
         (Parent (p ! i) \<noteq> sha (Left (p ! i) @ Right (p ! i)) \<and>
          err = unexpected_parent (Parent (p ! i)) (sha (Left (p ! i) @ Right (p ! i))) \<and>
          err = ''unexpected parent hash got '' @ [CHR 0x22] @ EncodeToString (Parent (p ! i)) @ [CHR 0x22] @
                '' want '' @ [CHR 0x22] @ EncodeToString (sha (Left (p ! i) @ Right (p ! i))) @ [CHR 0x22]) \<or>
         (Suc i < length p \<and> Parent (p ! i) \<noteq> Left (p ! Suc i) \<and> Parent (p ! i) \<noteq> Right (p ! Suc i) \<and>
          err = parent_not_found (Parent (p ! i)) (Left (p ! Suc i)) (Right (p ! Suc i)) \<and>
          err = ''could not find parent hash '' @ [CHR 0x22] @ EncodeToString (Parent (p ! i)) @ [CHR 0x22] @
                '', got '' @ [CHR 0x22] @ EncodeToString (Left (p ! Suc i)) @ [CHR 0x22] @
                '' and '' @ [CHR 0x22] @ EncodeToString (Right (p ! Suc i)) @ [CHR 0x22])"
    proof
      assume a: "Parent (p ! i) \<noteq> sha (Left (p ! i) @ Right (p ! i)) \<and>
         err = unexpected_parent (Parent (p ! i)) (sha (Left (p ! i) @ Right (p ! i)))"
      show ?thesis
        by (rule exI[of _ i], rule conjI[OF i(1)], rule disjI1) (use a u in blast)
    next
      assume b: "Suc i < length p \<and> Parent (p ! i) \<noteq> Left (p ! Suc i) \<and> Parent (p ! i) \<noteq> Right (p ! Suc i) \<and>
         err = parent_not_found (Parent (p ! i)) (Left (p ! Suc i)) (Right (p ! Suc i))"
      show ?thesis
        by (rule exI[of _ i], rule conjI[OF i(1)], rule disjI2) (use b n in blast)
    qed
  qed
  have 3: "length p \<le> 1 \<longrightarrow> (\<forall>e a1 a2. Path_Validate sha p \<noteq> Some (parent_not_found e a1 a2))"
    using Path_Validate_short[of p sha] by blast
  have 4: "length p \<le> 1 \<longrightarrow>
      (Path_Validate sha p = None \<longleftrightarrow> (\<forall>i<length p. Parent (p ! i) = sha (Left (p ! i) @ Right (p ! i))))"
    unfolding 1 by auto
  have 5: "\<forall>g w g' w'. unexpected_parent g w = unexpected_parent g' w' \<longrightarrow> g = g' \<and> w = w'"
    using unexpected_parent_inj by blast
  have 6: "\<forall>e a1 a2 e' a1' a2'.
      parent_not_found e a1 a2 = parent_not_found e' a1' a2' \<longrightarrow> e = e' \<and> a1 = a1' \<and> a2 = a2'"
    using parent_not_found_inj by blast
  have 7: "\<forall>g w e a1 a2. unexpected_parent g w \<noteq> parent_not_found e a1 a2"
    using msg_distinct by blast
  have 8: "\<forall>a b. EncodeToString a = EncodeToString b \<longrightarrow> a = b"
    using EncodeToString_inj by blast
  have 9: "\<forall>bs. length (EncodeToString bs) = 2 * length bs \<and>
      (\<forall>i<length bs.
         EncodeToString bs ! (2 * i) = ''0123456789abcdef'' ! (unat (bs ! i) div 16) \<and>
         EncodeToString bs ! (2 * i + 1) = ''0123456789abcdef'' ! (unat (bs ! i) mod 16))"
    using EncodeToString_length EncodeToString_nth by blast
  show ?thesis
    by (intro conjI) (rule 1, rule 2, rule 3, rule 4, rule 5, rule 6, rule 7, rule 8, rule 9)
qed

theorem Path_Validate_spec_witness:
  "Path_Validate example_digest
     [\<lparr>Left = [1], Right = [2], Parent = [1, 2]\<rparr>, \<lparr>Left = [1, 2], Right = [3], Parent = [1, 2, 3]\<rparr>] = None \<and>
   Path_Validate example_digest
     [\<lparr>Left = [1], Right = [2], Parent = [1, 2]\<rparr>, \<lparr>Left = [7], Right = [3], Parent = [7, 3]\<rparr>] =
     Some (''could not find parent hash '' @ [CHR 0x22] @ ''0102'' @ [CHR 0x22] @
           '', got '' @ [CHR 0x22] @ ''07'' @ [CHR 0x22] @ '' and '' @ [CHR 0x22] @ ''03'' @ [CHR 0x22]) \<and>
   Path_Validate example_digest [\<lparr>Left = [1], Right = [2], Parent = [0x9f]\<rparr>] =
     Some (''unexpected parent hash got '' @ [CHR 0x22] @ ''9f'' @ [CHR 0x22] @
           '' want '' @ [CHR 0x22] @ ''0102'' @ [CHR 0x22]) \<and>
   EncodeToString [0, 0x1f, 0xa0, 0xff] = ''001fa0ff''"
proof -
  have a: "Path_Validate example_digest
     [\<lparr>Left = [1], Right = [2], Parent = [1, 2]\<rparr>, \<lparr>Left = [7], Right = [3], Parent = [7, 3]\<rparr>] =
     Some (''could not find parent hash '' @ [CHR 0x22] @ ''0102'' @ [CHR 0x22] @
           '', got '' @ [CHR 0x22] @ ''07'' @ [CHR 0x22] @ '' and '' @ [CHR 0x22] @ ''03'' @ [CHR 0x22])"
    by code_simp
  have b: "Path_Validate example_digest [\<lparr>Left = [1], Right = [2], Parent = [0x9f]\<rparr>] =
     Some (''unexpected parent hash got '' @ [CHR 0x22] @ ''9f'' @ [CHR 0x22] @
           '' want '' @ [CHR 0x22] @ ''0102'' @ [CHR 0x22])"
    by code_simp
  have c: "EncodeToString [0, 0x1f, 0xa0, 0xff] = ''001fa0ff''" by code_simp
  from Path_Validate_spec[of example_digest
      "[\<lparr>Left = [1], Right = [2], Parent = [1, 2]\<rparr>, \<lparr>Left = [1, 2], Right = [3], Parent = [1, 2, 3]\<rparr>]"]
  have "Path_Validate example_digest
     [\<lparr>Left = [1], Right = [2], Parent = [1, 2]\<rparr>, \<lparr>Left = [1, 2], Right = [3], Parent = [1, 2, 3]\<rparr>] = None"
    by (simp add: example_digest_def less_Suc_eq)
  with a b c show ?thesis by blast
qed

text \<open>
  Claim C8. On a tree with fewer than two leaves \<^verbatim>\<open>Path(index)\<close> returns the empty path
  for every index, in range or not, without a panic.
\<close>

theorem Path_few_leaves:
  "length (leaves t) < 2 \<Longrightarrow> Path t index = Inr []"
  by (simp add: Path_def)

theorem Path_few_leaves_witness:
  "Path empty_tree 5 = Inr [] \<and> Path empty_tree (- 1) = Inr []"
  using Path_few_leaves[of empty_tree 5] Path_few_leaves[of empty_tree "- 1"]
  by (simp add: empty_tree_def)

text \<open>
  Claim C10. In every state reached from \<^verbatim>\<open>NewDynTree\<close> by the public operations,
  \<^verbatim>\<open>Root()\<close> on a tree without leaves panics on the nil root (it returns no digest), and
  on a tree with at least one leaf it returns the hash of the root node, the node without
  parent.
\<close>

theorem Root_spec:
  assumes "NewDynTree initialCap = Inr t0" "run sha t0 ops = Some t"
  shows "(LeavesLen t = 0 \<longrightarrow> Root t = Inl NilPointerDereference) \<and>
         (0 < LeavesLen t \<longrightarrow>
            (\<exists>r. root t = Some r \<and> r < length (nodes t) \<and> parent (nodes t ! r) = None \<and>
                 Root t = Inr (hash (nodes t ! r))))"
proof -
  note W = well_formedD[OF run_reachable_wf[OF assms]]
  show ?thesis
  proof (cases "leaves t = []")
    case True
    with W(8) have "nodes t = []" by (simp add: leaves_ok_def)
    with True show ?thesis by (simp add: LeavesLen_def Root_def deref_def split: option.split)
  next
    case False
    with W(8) have "nodes t \<noteq> []" by (simp add: leaves_ok_def)
    with W(7) obtain r where r: "root t = Some r" unfolding root_ok_def by (cases "root t") auto
    note R = root_okD[OF W(7)[unfolded r]]
    from R(1) R(2)[OF R(1)] r False show ?thesis by (simp add: LeavesLen_def Root_def deref_def)
  qed
qed

theorem Root_spec_witness:
  "Root empty_tree = Inl NilPointerDereference \<and> Root three_leaf_tree = Inr [1, 2, 3]"
  using Root_spec[of 4 empty_tree example_digest "[]" empty_tree]
    Root_spec[of 4 empty_tree example_digest "[OpAdd [1], OpAdd [2], OpAdd [3]]" three_leaf_tree]
    run_three_leaves
  by (simp add: NewDynTree_def wrap_int_def empty_tree_def LeavesLen_def three_leaf_tree_def)

lemma anc_nth_parent:
  assumes "(i, x) \<in> (par_rel ns)\<^sup>*"
  shows "\<exists>k. nth_parent ns i k = x"
  using assms
proof (induction rule: converse_rtrancl_induct)
  case base
  have "nth_parent ns x 0 = x" by simp
  then show ?case by blast
next
  case (step y z)
  from step.IH obtain k where k: "nth_parent ns z k = x" by blast
  from par_relD[OF step(1)] have "parent (ns ! y) = Some z" by simp
  with k have "nth_parent ns y (Suc k) = x" by simp
  then show ?case by blast
qed

text \<open>
  Claim C7. In every reachable tree with at least two leaves and for every valid leaf
  index, \<^verbatim>\<open>Path(index)\<close> returns a path whose \<open>k\<close>-th triplet belongs to the \<open>k\<close>-th
  node of the climb from the leaf along parent pointers: when that node has a left
  pointer the triplet is (hash of the left node, hash of the node, hash of the parent),
  otherwise the node has a right pointer and the triplet is (hash of the node, hash of the
  right node, hash of the parent). The climb ends exactly at the first node without
  parent.
\<close>

theorem Path_orientation:
  assumes new: "NewDynTree initialCap = Inr t0" and run: "run sha t0 ops = Some t"
    and n: "2 \<le> length (leaves t)" and ix: "0 \<le> index" "index < LeavesLen t"
  shows "\<exists>p. Path t index = Inr p \<and>
           parent (nodes t ! nth_parent (nodes t) (leaves t ! nat index) (length p)) = None \<and>
           (\<forall>k<length p. \<exists>q. parent (nodes t ! nth_parent (nodes t) (leaves t ! nat index) k) = Some q \<and>
              (case left (nodes t ! nth_parent (nodes t) (leaves t ! nat index) k) of
                 Some l \<Rightarrow>
                   p ! k = \<lparr>Left = hash (nodes t ! l),
                            Right = hash (nodes t ! nth_parent (nodes t) (leaves t ! nat index) k),
                            Parent = hash (nodes t ! q)\<rparr>
               | None \<Rightarrow>
                   (\<exists>r. right (nodes t ! nth_parent (nodes t) (leaves t ! nat index) k) = Some r \<and>
                        p ! k = \<lparr>Left = hash (nodes t ! nth_parent (nodes t) (leaves t ! nat index) k),
                                 Right = hash (nodes t ! r), Parent = hash (nodes t ! q)\<rparr>)))"
proof -
  let ?ns = "nodes t" and ?l = "leaves t ! nat index"
  note w = run_reachable_wf[OF new run]
  note W = well_formedD[OF w]
  from Path_spec[OF w n ix(1)] ix(2) obtain p where
    p: "Path t index = Inr p"
       "parent (?ns ! nth_parent ?ns ?l (length p)) = None"
       "\<And>k. k < length p \<Longrightarrow> nth_parent ?ns ?l k < length ?ns \<and>
                   parent (?ns ! nth_parent ?ns ?l k) \<noteq> None \<and>
                   p ! k = oriented_triplet ?ns (nth_parent ?ns ?l k)"
    by (auto simp: LeavesLen_def)
  have "\<exists>q. parent (?ns ! nth_parent ?ns ?l k) = Some q \<and>
              (case left (?ns ! nth_parent ?ns ?l k) of
                 Some l \<Rightarrow>
                   p ! k = \<lparr>Left = hash (?ns ! l), Right = hash (?ns ! nth_parent ?ns ?l k), Parent = hash (?ns ! q)\<rparr>
               | None \<Rightarrow>
                   (\<exists>r. right (?ns ! nth_parent ?ns ?l k) = Some r \<and>
                        p ! k = \<lparr>Left = hash (?ns ! nth_parent ?ns ?l k),
                                 Right = hash (?ns ! r), Parent = hash (?ns ! q)\<rparr>))"
    if k: "k < length p" for k
  proof -
    let ?i = "nth_parent ?ns ?l k"
    from p(3)[OF k] obtain q where i: "?i < length ?ns" and q: "parent (?ns ! ?i) = Some q"
      and e: "p ! k = oriented_triplet ?ns ?i" by auto
    show ?thesis
    proof (cases "left (?ns ! ?i)")
      case (Some l)
      with q e show ?thesis by (simp add: oriented_triplet_def)
    next
      case None
      with sib_okD(4)[OF W(2,1) i] q obtain r where r: "right (?ns ! ?i) = Some r" by auto
      with None q e show ?thesis by (simp add: oriented_triplet_def)
    qed
  qed
  with p(1,2) show ?thesis by blast
qed

theorem Path_orientation_witness:
  "Path three_leaf_tree 2 = Inr [\<lparr>Left = [1, 2], Right = [3], Parent = [1, 2, 3]\<rparr>] \<and>
   Path three_leaf_tree 0 =
     Inr [\<lparr>Left = [1], Right = [2], Parent = [1, 2]\<rparr>, \<lparr>Left = [1, 2], Right = [3], Parent = [1, 2, 3]\<rparr>] \<and>
   (\<exists>p. Path three_leaf_tree 2 = Inr p \<and>
       parent (nodes three_leaf_tree ! nth_parent (nodes three_leaf_tree) (leaves three_leaf_tree ! nat 2) (length p)) = None \<and>
       (\<forall>k<length p. \<exists>q. parent (nodes three_leaf_tree ! nth_parent (nodes three_leaf_tree) (leaves three_leaf_tree ! nat 2) k) = Some q \<and>
              (case left (nodes three_leaf_tree ! nth_parent (nodes three_leaf_tree) (leaves three_leaf_tree ! nat 2) k) of
                 Some l \<Rightarrow>
                   p ! k = \<lparr>Left = hash (nodes three_leaf_tree ! l),
                            Right = hash (nodes three_leaf_tree ! nth_parent (nodes three_leaf_tree) (leaves three_leaf_tree ! nat 2) k),
                            Parent = hash (nodes three_leaf_tree ! q)\<rparr>
               | None \<Rightarrow>
                   (\<exists>r. right (nodes three_leaf_tree ! nth_parent (nodes three_leaf_tree) (leaves three_leaf_tree ! nat 2) k) = Some r \<and>
                        p ! k = \<lparr>Left = hash (nodes three_leaf_tree ! nth_parent (nodes three_leaf_tree) (leaves three_leaf_tree ! nat 2) k),
                                 Right = hash (nodes three_leaf_tree ! r), Parent = hash (nodes three_leaf_tree ! q)\<rparr>))))"
proof -
  have a: "NewDynTree 4 = Inr empty_tree" by (simp add: NewDynTree_def wrap_int_def empty_tree_def)
  have b: "2 \<le> length (leaves three_leaf_tree)" "(0::int) \<le> 2" "2 < LeavesLen three_leaf_tree"
    by (simp_all add: three_leaf_tree_def LeavesLen_def)
  have c: "Path three_leaf_tree 2 = Inr [\<lparr>Left = [1, 2], Right = [3], Parent = [1, 2, 3]\<rparr>]"
    "Path three_leaf_tree 0 =
     Inr [\<lparr>Left = [1], Right = [2], Parent = [1, 2]\<rparr>, \<lparr>Left = [1, 2], Right = [3], Parent = [1, 2, 3]\<rparr>]"
    by code_simp+
  from c Path_orientation[OF a run_three_leaves b] show ?thesis by (intro conjI)
qed




text \<open>
  Claim C5. In every reachable state no node has both sibling pointers set, and the root
  has neither. When \<^verbatim>\<open>Add\<close> is called on a non-empty tree, the climb finds a candidate,
  the call returns without panic, the candidate's left pointer is nil afterwards, and a
  former left neighbour \<open>x\<close> of the candidate (whose right pointer was the candidate) has
  the new parent node as its right pointer, while the new parent has \<open>x\<close> as its left
  pointer; no node of the new state has both sibling pointers set.
\<close>

theorem sibling_exclusive:
  assumes new: "NewDynTree initialCap = Inr t0" and run: "run sha t0 ops = Some t"
  shows "(\<forall>i<length (nodes t). left (nodes t ! i) = None \<or> right (nodes t ! i) = None) \<and>
         (\<forall>r. root t = Some r \<longrightarrow> left (nodes t ! r) = None \<and> right (nodes t ! r) = None) \<and>
         (leaves t \<noteq> [] \<longrightarrow>
            (\<exists>cand t'.
               Add_climb (nodes t @ [\<lparr>hash = leaf, left = None, right = None, parent = None, height = 0\<rparr>])
                 (last (leaves t)) = Some (Inr cand) \<and>
               Add sha t leaf = Some (t', None) \<and>
               left (nodes t' ! cand) = None \<and>
               (\<forall>x. left (nodes t ! cand) = Some x \<longrightarrow>
                    right (nodes t ! x) = Some cand \<and>
                    right (nodes t' ! x) = Some (Suc (length (nodes t))) \<and>
                    left (nodes t' ! Suc (length (nodes t))) = Some x) \<and>
               (\<forall>i<length (nodes t'). left (nodes t' ! i) = None \<or> right (nodes t' ! i) = None)))"
proof -
  let ?ns = "nodes t"
  note w = run_reachable_wf[OF new run]
  note W = well_formedD[OF w]
  have 1: "\<forall>i<length ?ns. left (?ns ! i) = None \<or> right (?ns ! i) = None"
    using sib_okD(3)[OF W(2,1)] by blast
  have 2: "\<forall>r. root t = Some r \<longrightarrow> left (?ns ! r) = None \<and> right (?ns ! r) = None"
  proof (intro allI impI)
    fix r assume r: "root t = Some r"
    note R = root_okD[OF W(7)[unfolded r]]
    from R(2)[OF R(1)] sib_okD(4)[OF W(2,1) R(1)] show "left (?ns ! r) = None \<and> right (?ns ! r) = None"
      by simp
  qed
  have 3: "\<exists>cand t'.
               Add_climb (?ns @ [\<lparr>hash = leaf, left = None, right = None, parent = None, height = 0\<rparr>])
                 (last (leaves t)) = Some (Inr cand) \<and>
               Add sha t leaf = Some (t', None) \<and>
               left (nodes t' ! cand) = None \<and>
               (\<forall>x. left (?ns ! cand) = Some x \<longrightarrow>
                    right (?ns ! x) = Some cand \<and>
                    right (nodes t' ! x) = Some (Suc (length ?ns)) \<and>
                    left (nodes t' ! Suc (length ?ns)) = Some x) \<and>
               (\<forall>i<length (nodes t'). left (nodes t' ! i) = None \<or> right (nodes t' ! i) = None)"
    if ne: "leaves t \<noteq> []"
  proof -
    from Add_climb_cand[OF w ne, of leaf] obtain c where
      c: "Add_climb (?ns @ [leaf_node leaf]) (last (leaves t)) = Some (Inr c)" "cand_ok ?ns c"
        "(last (leaves t), c) \<in> (par_rel ?ns)\<^sup>*" by blast
    have cl: "c < length ?ns" using c(2) by (simp add: cand_ok_def)
    from Add_well_formed[OF w, of sha leaf] obtain t' where
      t': "Add sha t leaf = Some (t', None)" "well_formed t'" by blast
    note W' = well_formedD[OF t'(2)]
    have sh: "same_shape (linked ?ns c leaf) (nodes t')"
    proof (cases "paused t")
      case True
      with Add_unfold[OF w ne c(1,2), of sha] t'(1) show ?thesis
        by (simp add: Add_shape_def same_shape_refl)
    next
      case False
      let ?n = "linked ?ns c leaf"
      note WS = well_formed_Add_shape[OF w ne c(2,3), of leaf]
      have nS: "nodes (Add_shape t leaf c) = ?n" by (simp add: Add_shape_def)
      note WL = well_formedD[OF WS, unfolded nS]
      have lc: "c < length ?n" "parent (?n ! c) = Some (Suc (length ?ns))" "right (?n ! c) = Some (length ?ns)"
        "hash (?ns ! c) = hash (?n ! c)" "leaf = hash (?n ! length ?ns)"
        using cl by (simp_all add: length_linked linked_c linked_a)
      from rehash_up[OF WL(1,2,3,4,5) lc, of sha] obtain ns' where
        ns': "rehash sha ?n (Some (Suc (length ?ns))) (hash (?ns ! c)) leaf True = Some (ns', None)"
          "same_shape ?n ns'" by blast
      with Add_unfold[OF w ne c(1,2), of sha] False t'(1) show ?thesis by simp
    qed
    note D = same_shapeD[OF sh]
    have a: "left (nodes t' ! c) = None" using cl by (simp add: D linked_c)
    have b: "right (?ns ! x) = Some c \<and> right (nodes t' ! x) = Some (Suc (length ?ns)) \<and>
             left (nodes t' ! Suc (length ?ns)) = Some x" if x: "left (?ns ! c) = Some x" for x
      using cand_sibling[OF W(1,2) c(2) x] cl x by (simp add: D linked_x linked_b)
    have d: "\<forall>i<length (nodes t'). left (nodes t' ! i) = None \<or> right (nodes t' ! i) = None"
      using sib_okD(3)[OF W'(2,1)] by blast
    show ?thesis
      using c(1)[unfolded leaf_node_def] t'(1) a b d by blast
  qed
  from 1 2 3 show ?thesis by blast
qed

theorem sibling_exclusive_witness:
  "Add_climb (nodes three_leaf_tree @ [\<lparr>hash = [4], left = None, right = None, parent = None, height = 0\<rparr>])
     (last (leaves three_leaf_tree)) = Some (Inr 3) \<and>
   left (nodes three_leaf_tree ! 3) = Some 2 \<and>
   (\<exists>t'. Add example_digest three_leaf_tree [4] = Some (t', None) \<and>
         left (nodes t' ! 3) = None \<and> right (nodes t' ! 2) = Some 6 \<and> left (nodes t' ! 6) = Some 2)"
proof -
  have a: "NewDynTree 4 = Inr empty_tree" by (simp add: NewDynTree_def wrap_int_def empty_tree_def)
  have b: "leaves three_leaf_tree \<noteq> []" "left (nodes three_leaf_tree ! 3) = Some 2"
    "Suc (length (nodes three_leaf_tree)) = 6"
    by (simp_all add: three_leaf_tree_def)
  have c: "Add_climb (nodes three_leaf_tree @ [\<lparr>hash = [4], left = None, right = None, parent = None, height = 0\<rparr>])
     (last (leaves three_leaf_tree)) = Some (Inr 3)"
    by code_simp
  from sibling_exclusive[OF a run_three_leaves, of "[4]"] b(1) obtain cand t' where
    d: "Add_climb (nodes three_leaf_tree @ [\<lparr>hash = [4], left = None, right = None, parent = None, height = 0\<rparr>])
                 (last (leaves three_leaf_tree)) = Some (Inr cand)"
       "Add example_digest three_leaf_tree [4] = Some (t', None)"
       "left (nodes t' ! cand) = None"
       "\<forall>x. left (nodes three_leaf_tree ! cand) = Some x \<longrightarrow>
                    right (nodes three_leaf_tree ! x) = Some cand \<and>
                    right (nodes t' ! x) = Some (Suc (length (nodes three_leaf_tree))) \<and>
                    left (nodes t' ! Suc (length (nodes three_leaf_tree))) = Some x"
    by blast
  from c d(1) have e: "cand = 3" by simp
  from d(4)[rule_format, of 2] b(2,3) e have "right (nodes t' ! 2) = Some 6" "left (nodes t' ! 6) = Some 2"
    by simp_all
  with c b(2) d(2) d(3)[unfolded e] show ?thesis by blast
qed

text \<open>
  Claim C6. In every reachable state, \<^verbatim>\<open>Update(index, hash)\<close> with an index outside
  \<open>[0, LeavesLen())\<close> panics with the tree unchanged. With an index in range it returns
  without panic; sibling, parent and height fields, root, leaf list, height and pause flag
  are unchanged, and \<^verbatim>\<open>Leaf(index)\<close> is the new hash. When paused, the leaf's hash is the
  only change. When not paused, every node \<open>i\<close> on the climb from the leaf that has a parent
  \<open>q\<close> ends with the hash of \<open>q\<close> equal to the digest of its two children's hashes, in the order
  given by the sibling pointers of \<open>i\<close>, and every node off the climb keeps its hash.
\<close>

theorem Update_spec:
  assumes new: "NewDynTree initialCap = Inr t0" and run: "run sha t0 ops = Some t"
  shows "(index < 0 \<or> LeavesLen t \<le> index \<longrightarrow> Update sha t index hsh = Some (t, Some IndexOutOfRange)) \<and>
         (0 \<le> index \<and> index < LeavesLen t \<longrightarrow>
            (\<exists>ns'. Update sha t index hsh = Some (t\<lparr>nodes := ns'\<rparr>, None) \<and>
               length ns' = length (nodes t) \<and>
               (\<forall>i. left (ns' ! i) = left (nodes t ! i) \<and> right (ns' ! i) = right (nodes t ! i) \<and>
                    parent (ns' ! i) = parent (nodes t ! i) \<and> height (ns' ! i) = height (nodes t ! i)) \<and>
               Leaf (t\<lparr>nodes := ns'\<rparr>) index = Inr hsh \<and>
               (paused t \<longrightarrow>
                  ns' = (nodes t)[leaves t ! nat index := (nodes t ! (leaves t ! nat index))\<lparr>hash := hsh\<rparr>]) \<and>
               (\<not> paused t \<longrightarrow>
                  (\<forall>k q. parent (ns' ! nth_parent ns' (leaves t ! nat index) k) = Some q \<longrightarrow>
                     (case left (ns' ! nth_parent ns' (leaves t ! nat index) k) of
                        Some l \<Rightarrow>
                          hash (ns' ! q) = sha (hash (ns' ! l) @ hash (ns' ! nth_parent ns' (leaves t ! nat index) k))
                      | None \<Rightarrow>
                          (\<exists>r. right (ns' ! nth_parent ns' (leaves t ! nat index) k) = Some r \<and>
                               hash (ns' ! q) =
                                 sha (hash (ns' ! nth_parent ns' (leaves t ! nat index) k) @ hash (ns' ! r))))) \<and>
                  (\<forall>x. (\<forall>k. nth_parent (nodes t) (leaves t ! nat index) k \<noteq> x) \<longrightarrow>
                       hash (ns' ! x) = hash (nodes t ! x)))))"
proof -
  let ?ns = "nodes t" and ?l = "leaves t ! nat index"
  note w = run_reachable_wf[OF new run]
  note W = well_formedD[OF w]
  have 1: "Update sha t index hsh = Some (t, Some IndexOutOfRange)" if "index < 0 \<or> LeavesLen t \<le> index"
    using that by (simp add: Update_out_of_range LeavesLen_def)
  have 2: "\<exists>ns'. Update sha t index hsh = Some (t\<lparr>nodes := ns'\<rparr>, None) \<and>
               length ns' = length ?ns \<and>
               (\<forall>i. left (ns' ! i) = left (?ns ! i) \<and> right (ns' ! i) = right (?ns ! i) \<and>
                    parent (ns' ! i) = parent (?ns ! i) \<and> height (ns' ! i) = height (?ns ! i)) \<and>
               Leaf (t\<lparr>nodes := ns'\<rparr>) index = Inr hsh \<and>
               (paused t \<longrightarrow> ns' = ?ns[?l := (?ns ! ?l)\<lparr>hash := hsh\<rparr>]) \<and>
               (\<not> paused t \<longrightarrow>
                  (\<forall>k q. parent (ns' ! nth_parent ns' ?l k) = Some q \<longrightarrow>
                     (case left (ns' ! nth_parent ns' ?l k) of
                        Some l \<Rightarrow> hash (ns' ! q) = sha (hash (ns' ! l) @ hash (ns' ! nth_parent ns' ?l k))
                      | None \<Rightarrow>
                          (\<exists>r. right (ns' ! nth_parent ns' ?l k) = Some r \<and>
                               hash (ns' ! q) = sha (hash (ns' ! nth_parent ns' ?l k) @ hash (ns' ! r))))) \<and>
                  (\<forall>x. (\<forall>k. nth_parent ?ns ?l k \<noteq> x) \<longrightarrow> hash (ns' ! x) = hash (?ns ! x)))"
    if ix0: "0 \<le> index \<and> index < LeavesLen t"
  proof -
    from ix0 have ix: "0 \<le> index" "index < int (length (leaves t))" by (simp_all add: LeavesLen_def)
    have "?l \<in> set (leaves t)" using ix by simp
    with W(8) have l: "?l < length ?ns" unfolding leaves_ok_def by blast
    show ?thesis
    proof (cases "paused t")
      case True
      let ?n' = "?ns[?l := (?ns ! ?l)\<lparr>hash := hsh\<rparr>]"
      note sh = same_shape_sethash[of ?ns ?l hsh]
      have "Leaf (t\<lparr>nodes := ?n'\<rparr>) index = Inr hsh" using ix l by (simp add: Leaf_def deref_def)
      with Update_paused[OF w ix True, of sha hsh] True same_shapeD[OF sh] show ?thesis
        by (intro exI[of _ ?n']) simp
    next
      case False
      from Update_active[OF w ix False, of sha hsh] obtain ns' where
        n: "Update sha t index hsh = Some (t\<lparr>nodes := ns'\<rparr>, None)" "same_shape ?ns ns'"
          "hash (ns' ! ?l) = hsh"
          "\<And>q. (?l, q) \<notin> (par_rel ?ns)\<^sup>* \<Longrightarrow> hash (ns' ! q) = hash (?ns ! q)"
          "\<And>i q. i < length ?ns \<Longrightarrow> parent (?ns ! i) = Some q \<Longrightarrow> (?l, q) \<in> (par_rel ?ns)\<^sup>* \<Longrightarrow>
                 Parent (oriented_triplet ns' i) = sha (Left (oriented_triplet ns' i) @ Right (oriented_triplet ns' i))"
        by blast
      note D = same_shapeD[OF n(2)]
      have lf: "Leaf (t\<lparr>nodes := ns'\<rparr>) index = Inr hsh" using ix l n(3) by (simp add: Leaf_def deref_def D)
      have a: "case left (ns' ! nth_parent ns' ?l k) of
                        Some l \<Rightarrow> hash (ns' ! q) = sha (hash (ns' ! l) @ hash (ns' ! nth_parent ns' ?l k))
                      | None \<Rightarrow>
                          (\<exists>r. right (ns' ! nth_parent ns' ?l k) = Some r \<and>
                               hash (ns' ! q) = sha (hash (ns' ! nth_parent ns' ?l k) @ hash (ns' ! r)))"
        if q: "parent (ns' ! nth_parent ns' ?l k) = Some q" for k q
      proof -
        let ?i = "nth_parent ?ns ?l k"
        have e: "nth_parent ns' ?l k = ?i" by (rule nth_parent_same_shape[OF n(2)])
        from q have q': "parent (?ns ! ?i) = Some q" by (simp add: e D)
        note an = nth_parent_anc[OF W(1) l, of k]
        from anc_in_range[OF W(1) an l] have i: "?i < length ?ns" .
        have "(?i, q) \<in> par_rel ?ns" using i q' by (simp add: par_rel_def)
        with an have "(?l, q) \<in> (par_rel ?ns)\<^sup>*" by (rule rtrancl_into_rtrancl)
        note T = n(5)[OF i q' this]
        show ?thesis
        proof (cases "left (?ns ! ?i)")
          case (Some l')
          with T q' show ?thesis by (simp add: e D oriented_triplet_def)
        next
          case None
          with sib_okD(4)[OF W(2,1) i] q' obtain r where r: "right (?ns ! ?i) = Some r" by auto
          with None T q' show ?thesis by (simp add: e D oriented_triplet_def)
        qed
      qed
      have b: "hash (ns' ! x) = hash (?ns ! x)" if "\<forall>k. nth_parent ?ns ?l k \<noteq> x" for x
        using n(4)[of x] anc_nth_parent[of ?l x ?ns] that by blast
      show ?thesis
        using False by (intro exI[of _ ns'] conjI allI impI n(1) D lf a b) simp_all
    qed
  qed
  from 1 2 show ?thesis by blast
qed

theorem Update_spec_witness:
  "Update example_digest three_leaf_tree 3 [9] = Some (three_leaf_tree, Some IndexOutOfRange) \<and>
   Update example_digest three_leaf_tree 1 [9] =
     Some (three_leaf_tree\<lparr>nodes :=
        [\<lparr>hash = [1], left = None, right = Some 1, parent = Some 2, height = 0\<rparr>,
         \<lparr>hash = [9], left = Some 0, right = None, parent = Some 2, height = 0\<rparr>,
         \<lparr>hash = [1, 9], left = None, right = Some 3, parent = Some 4, height = 1\<rparr>,
         \<lparr>hash = [3], left = Some 2, right = None, parent = Some 4, height = 0\<rparr>,
         \<lparr>hash = [1, 9, 3], left = None, right = None, parent = None, height = 2\<rparr>]\<rparr>, None) \<and>
   (\<exists>ns'. Update example_digest three_leaf_tree 1 [9] = Some (three_leaf_tree\<lparr>nodes := ns'\<rparr>, None) \<and>
          Leaf (three_leaf_tree\<lparr>nodes := ns'\<rparr>) 1 = Inr [9])"
proof -
  have a: "NewDynTree 4 = Inr empty_tree" by (simp add: NewDynTree_def wrap_int_def empty_tree_def)
  have b: "LeavesLen three_leaf_tree \<le> 3" "(0::int) \<le> 1 \<and> 1 < LeavesLen three_leaf_tree"
    by (simp_all add: three_leaf_tree_def LeavesLen_def)
  note U = Update_spec[OF a run_three_leaves]
  have 1: "Update example_digest three_leaf_tree 3 [9] = Some (three_leaf_tree, Some IndexOutOfRange)"
    using U[of 3 "[9]"] b(1) by blast
  have 2: "\<exists>ns'. Update example_digest three_leaf_tree 1 [9] = Some (three_leaf_tree\<lparr>nodes := ns'\<rparr>, None) \<and>
          Leaf (three_leaf_tree\<lparr>nodes := ns'\<rparr>) 1 = Inr [9]"
    using U[of 1 "[9]"] b(2) by blast
  have 3: "Update example_digest three_leaf_tree 1 [9] =
     Some (three_leaf_tree\<lparr>nodes :=
        [\<lparr>hash = [1], left = None, right = Some 1, parent = Some 2, height = 0\<rparr>,
         \<lparr>hash = [9], left = Some 0, right = None, parent = Some 2, height = 0\<rparr>,
         \<lparr>hash = [1, 9], left = None, right = Some 3, parent = Some 4, height = 1\<rparr>,
         \<lparr>hash = [3], left = Some 2, right = None, parent = Some 4, height = 0\<rparr>,
         \<lparr>hash = [1, 9, 3], left = None, right = None, parent = None, height = 2\<rparr>]\<rparr>, None)"
    by code_simp
  from 1 3 2 show ?thesis by (intro conjI)
qed

lemma Adds_five_leaves_root:
  "(case Adds example_digest three_leaf_tree [[4], [5]] of
      Some (te, None) \<Rightarrow> Root te = Inr [1, 2, 3, 4, 5]
    | _ \<Rightarrow> False)"
  by code_simp

text \<open>
  Claim C2. Let \<open>t\<close> be any state reached from \<^verbatim>\<open>NewDynTree\<close> by the public operations in
  which hashing is active, and \<open>ls\<close> any sequence of leaf hashes. Adding \<open>ls\<close> to \<open>t\<close>
  eagerly, and adding \<open>ls\<close> after \<^verbatim>\<open>Pause()\<close> and then calling \<^verbatim>\<open>Resume()\<close>, both return
  without a panic and end in the same tree: the same nodes with the same hash in every
  node, the same root, and hashing active again. In particular \<^verbatim>\<open>Root()\<close> is the same.
\<close>

theorem Pause_Resume_deterministic:
  assumes "NewDynTree initialCap = Inr t0" "run sha t0 ops = Some t" "\<not> paused t"
  shows "\<exists>te tp tr. Adds sha t ls = Some (te, None) \<and> Adds sha (Pause t) ls = Some (tp, None) \<and>
           Resume sha tp = Some (tr, None) \<and> tr = te \<and> Root tr = Root te"
proof -
  from run_good[OF good_new[OF assms(1)] assms(2)] have "good sha t" .
  from Resume_restores[OF this assms(3), of ls] show ?thesis by auto
qed

theorem Pause_Resume_deterministic_witness:
  "\<exists>te tp. Adds example_digest three_leaf_tree [[4], [5]] = Some (te, None) \<and>
           Adds example_digest (Pause three_leaf_tree) [[4], [5]] = Some (tp, None) \<and>
           Resume example_digest tp = Some (te, None) \<and> Root te = Inr [1, 2, 3, 4, 5]"
proof -
  have a: "NewDynTree 4 = Inr empty_tree" by (simp add: NewDynTree_def wrap_int_def empty_tree_def)
  have b: "\<not> paused three_leaf_tree" by (simp add: three_leaf_tree_def)
  from Pause_Resume_deterministic[OF a run_three_leaves b, of "[[4], [5]]"] obtain te tp where
    r: "Adds example_digest three_leaf_tree [[4], [5]] = Some (te, None)"
       "Adds example_digest (Pause three_leaf_tree) [[4], [5]] = Some (tp, None)"
       "Resume example_digest tp = Some (te, None)"
    by auto
  from Adds_five_leaves_root r(1) have "Root te = Inr [1, 2, 3, 4, 5]" by simp
  with r show ?thesis by blast
qed

end
